theory Spec2Isabelle
  imports Main "HOL-Library.Char_ord" "HOL-Library.List_Lexorder"
begin

section \<open>Data model\<close>

text \<open>
  The program \<^verbatim>\<open>json_tree_modified.py\<close> folds the rows of a CSV file into nested
  dictionaries and lists.  A row is a Python dict from column name to string; the
  reader object \<^verbatim>\<open>data\<close> carries the ordered column names (\<^verbatim>\<open>data.fieldnames\<close>) and
  yields the rows in order.  Python dicts keep insertion order, so a dict is an
  association list; assigning to a key that is present replaces the value in place,
  assigning to a new key appends the pair.
\<close>

datatype py_error = KeyError | IndexError | TypeError | AttributeError

record csv_data =
  fieldnames :: "string list"
  rows :: "(string \<rightharpoonup> string) list"

text \<open>
  The values built by \<^verbatim>\<open>construct_json\<close>, \<^verbatim>\<open>detailed_tree\<close> and \<^verbatim>\<open>add_label\<close>: a list of
  strings or a dict from strings to such values.  None of the three ever stores a bare
  string as a dict value.
\<close>

datatype tree = Arr "string list" | Map "(string \<times> tree) list"

text \<open>
  The values built by \<^verbatim>\<open>construct_with_yl\<close>: dict keys are strings or integers
  (\<^verbatim>\<open>track[dis_idx] = entry\<close> with \<^verbatim>\<open>dis_idx = len(track)\<close>), dict values are strings, dicts
  or lists, and the only lists are lists of dicts (\<^verbatim>\<open>track.append(temp_cont)\<close>).
\<close>

datatype ylkey = SKey string | IKey nat

datatype ylval = YStr string | YList "(ylkey \<times> ylval) list list" | YDict "(ylkey \<times> ylval) list"

text \<open>The module constants.\<close>

definition DEPTH :: nat where "DEPTH = 4"
definition IDX_CONTENT_TAG :: int where "IDX_CONTENT_TAG = - 2"
definition IDX_YEAR_LEVEL :: int where "IDX_YEAR_LEVEL = - 1"
definition IDX_SUBTOPIC :: int where "IDX_SUBTOPIC = 1"

section \<open>Python primitives\<close>

text \<open>\<^verbatim>\<open>d[k] = v\<close> on a dict.\<close>

fun dict_set :: "'k \<Rightarrow> 'v \<Rightarrow> ('k \<times> 'v) list \<Rightarrow> ('k \<times> 'v) list" where
  "dict_set k v [] = [(k, v)]"
| "dict_set k v ((k', v') # ps) = (if k' = k then (k, v) # ps else (k', v') # dict_set k v ps)"

text \<open>\<^verbatim>\<open>d[k]\<close> on a dict and \<^verbatim>\<open>row[field]\<close> on a row: a missing key raises \<^verbatim>\<open>KeyError\<close>.\<close>

definition dict_get :: "('k \<times> 'v) list \<Rightarrow> 'k \<Rightarrow> py_error + 'v" where
  "dict_get d k = (case map_of d k of None \<Rightarrow> Inl KeyError | Some v \<Rightarrow> Inr v)"

definition row_get :: "(string \<rightharpoonup> string) \<Rightarrow> string \<Rightarrow> py_error + string" where
  "row_get row field = (case row field of None \<Rightarrow> Inl KeyError | Some v \<Rightarrow> Inr v)"

text \<open>
  \<^verbatim>\<open>xs[i]\<close> on a list of length \<open>n\<close>: a negative index counts from the end, an index
  out of range raises \<^verbatim>\<open>IndexError\<close>.  \<open>py_pos\<close> is the position that is read.
\<close>

definition py_pos :: "nat \<Rightarrow> int \<Rightarrow> py_error + nat" where
  "py_pos n i =
     (let j = (if i < 0 then int n + i else i)
      in if 0 \<le> j \<and> j < int n then Inr (nat j) else Inl IndexError)"

definition py_index :: "'a list \<Rightarrow> int \<Rightarrow> py_error + 'a" where
  "py_index xs i = (case py_pos (length xs) i of Inl e \<Rightarrow> Inl e | Inr j \<Rightarrow> Inr (xs ! j))"

text \<open>\<^verbatim>\<open>xs[:n]\<close>: a negative bound drops that many elements from the end.\<close>

definition slice_to :: "int \<Rightarrow> 'a list \<Rightarrow> 'a list" where
  "slice_to n xs = (if 0 \<le> n then take (nat n) xs else take (length xs - nat (- n)) xs)"

text \<open>Sequencing of computations that may raise.\<close>

definition bind_err :: "py_error + 'a \<Rightarrow> ('a \<Rightarrow> py_error + 'b) \<Rightarrow> py_error + 'b" where
  "bind_err m f = (case m of Inl e \<Rightarrow> Inl e | Inr v \<Rightarrow> f v)"

lemma bind_err_cong [fundef_cong]:
  "m = m' \<Longrightarrow> (\<And>v. m' = Inr v \<Longrightarrow> f v = f' v) \<Longrightarrow> bind_err m f = bind_err m' f'"
  by (simp add: bind_err_def split: sum.splits)

lemma bind_err_simps [simp]:
  "bind_err (Inl e) f = Inl e"
  "bind_err (Inr v) f = f v"
  by (simp_all add: bind_err_def)

text \<open>\<^verbatim>\<open>f"{n}"\<close> for a non-negative integer: its decimal digits.\<close>

definition digit_char :: "nat \<Rightarrow> char" where
  "digit_char d = ''0123456789'' ! d"

fun str_nat :: "nat \<Rightarrow> string" where
  "str_nat n = (if n < 10 then [digit_char n] else str_nat (n div 10) @ [digit_char (n mod 10)])"

declare str_nat.simps [simp del]

text \<open>\<^verbatim>\<open>' '.join(xs)\<close>.\<close>

fun join_space :: "string list \<Rightarrow> string" where
  "join_space [] = []"
| "join_space [x] = x"
| "join_space (x # y # ys) = x @ '' '' @ join_space (y # ys)"

text \<open>\<^verbatim>\<open>s.add(x)\<close> on a set, kept as a list without repetitions.\<close>

definition set_add :: "'a \<Rightarrow> 'a list \<Rightarrow> 'a list" where
  "set_add x s = (if x \<in> set s then s else s @ [x])"

section \<open>The Plain Tree Builder: \<^verbatim>\<open>construct_json\<close>\<close>

text \<open>
  The body of \<^verbatim>\<open>for row in data\<close>.  The first argument is what is left of
  \<^verbatim>\<open>all_fields[:-2]\<close>; \<^verbatim>\<open>track\<close> is the node reached so far, and the result is that node
  after the row has been entered below it.  When the inner loop is done the last two
  columns are read: \<^verbatim>\<open>all_fields[-2]\<close> names the list, \<^verbatim>\<open>all_fields[-1]\<close> the
  element appended to it unless it is there already.  The equations for a \<^verbatim>\<open>track\<close> that
  is a list, and the branch for a dict found where the list is expected, are what Python
  does there; the builder never gets there.
\<close>

fun json_walk :: "string list \<Rightarrow> string list \<Rightarrow> (string \<rightharpoonup> string) \<Rightarrow> tree \<Rightarrow> py_error + tree" where
  "json_walk [] all_fields row (Map m) =
     bind_err (py_index all_fields (- 2)) (\<lambda>f2.
     bind_err (row_get row f2) (\<lambda>next_node.
     let m1 = (if map_of m next_node = None then dict_set next_node (Arr []) m else m) in
     bind_err (py_index all_fields (- 1)) (\<lambda>f1.
     bind_err (row_get row f1) (\<lambda>sub_content.
     (case map_of m1 next_node of
        None \<Rightarrow> Inl KeyError
      | Some (Arr xs) \<Rightarrow>
          Inr (Map (if sub_content \<notin> set xs
                    then dict_set next_node (Arr (xs @ [sub_content])) m1 else m1))
      | Some (Map c) \<Rightarrow>
          (if map_of c sub_content = None then Inl AttributeError else Inr (Map m1)))))))"
| "json_walk [] all_fields row (Arr xs) =
     bind_err (py_index all_fields (- 2)) (\<lambda>f2.
     bind_err (row_get row f2) (\<lambda>next_node.
     if next_node \<notin> set xs then Inl TypeError
     else bind_err (py_index all_fields (- 1)) (\<lambda>f1.
          bind_err (row_get row f1) (\<lambda>sub_content. Inl TypeError))))"
| "json_walk (field # flds) all_fields row (Map m) =
     bind_err (row_get row field) (\<lambda>next_node.
     bind_err (json_walk flds all_fields row
                 (case map_of m next_node of None \<Rightarrow> Map [] | Some c \<Rightarrow> c)) (\<lambda>c'.
     Inr (Map (dict_set next_node c' m))))"
| "json_walk (field # flds) all_fields row (Arr xs) =
     bind_err (row_get row field) (\<lambda>next_node. Inl TypeError)"

fun json_rows :: "string list \<Rightarrow> (string \<rightharpoonup> string) list \<Rightarrow> tree \<Rightarrow> py_error + tree" where
  "json_rows all_fields [] output = Inr output"
| "json_rows all_fields (row # rs) output =
     bind_err (json_walk (slice_to (- 2) all_fields) all_fields row output)
       (json_rows all_fields rs)"

definition construct_json :: "csv_data \<Rightarrow> int \<Rightarrow> py_error + tree" where
  "construct_json data depth = json_rows (slice_to depth (fieldnames data)) (rows data) (Map [])"

section \<open>The Detailed Tree Builder: \<^verbatim>\<open>detailed_tree\<close>\<close>

text \<open>
  The body of \<^verbatim>\<open>for row in data\<close>: the first argument is what is left of
  \<^verbatim>\<open>all_fields[:depth]\<close>.  At the end of the inner loop the key \<^verbatim>\<open>f"Y{row[all_fields[-1]]}"\<close>
  is created with an empty list if absent, and \<^verbatim>\<open>row[all_fields[-2]]\<close> is appended.
\<close>

fun detail_walk :: "string list \<Rightarrow> string list \<Rightarrow> (string \<rightharpoonup> string) \<Rightarrow> tree \<Rightarrow> py_error + tree" where
  "detail_walk [] all_fields row (Map m) =
     bind_err (py_index all_fields (- 1)) (\<lambda>f1.
     bind_err (row_get row f1) (\<lambda>yl.
     let year_level = ''Y'' @ yl;
         m1 = (if map_of m year_level = None then dict_set year_level (Arr []) m else m) in
     bind_err (py_index all_fields (- 2)) (\<lambda>f2.
     bind_err (row_get row f2) (\<lambda>tag.
     (case map_of m1 year_level of
        None \<Rightarrow> Inl KeyError
      | Some (Arr xs) \<Rightarrow> Inr (Map (dict_set year_level (Arr (xs @ [tag])) m1))
      | Some (Map c) \<Rightarrow> Inl AttributeError)))))"
| "detail_walk [] all_fields row (Arr xs) =
     bind_err (py_index all_fields (- 1)) (\<lambda>f1.
     bind_err (row_get row f1) (\<lambda>yl.
     if ''Y'' @ yl \<notin> set xs then Inl TypeError
     else bind_err (py_index all_fields (- 2)) (\<lambda>f2.
          bind_err (row_get row f2) (\<lambda>tag. Inl TypeError))))"
| "detail_walk (field # flds) all_fields row (Map m) =
     bind_err (row_get row field) (\<lambda>next_node.
     bind_err (detail_walk flds all_fields row
                 (case map_of m next_node of None \<Rightarrow> Map [] | Some c \<Rightarrow> c)) (\<lambda>c'.
     Inr (Map (dict_set next_node c' m))))"
| "detail_walk (field # flds) all_fields row (Arr xs) =
     bind_err (row_get row field) (\<lambda>next_node. Inl TypeError)"

fun detail_rows :: "string list \<Rightarrow> int \<Rightarrow> (string \<rightharpoonup> string) list \<Rightarrow> tree \<Rightarrow> py_error + tree" where
  "detail_rows all_fields depth [] output = Inr output"
| "detail_rows all_fields depth (row # rs) output =
     bind_err (detail_walk (slice_to depth all_fields) all_fields row output)
       (detail_rows all_fields depth rs)"

definition detailed_tree :: "csv_data \<Rightarrow> int \<Rightarrow> py_error + tree" where
  "detailed_tree data depth = detail_rows (fieldnames data) depth (rows data) (Map [])"

section \<open>The Year-Level Tree Builder: \<^verbatim>\<open>construct_with_yl\<close>\<close>

text \<open>
  The local variables that live across the iterations of \<^verbatim>\<open>for row in data\<close>.
  \<^verbatim>\<open>year_level_dict\<close> maps a subtopic to a Python set of tokens; the set is kept as a
  list without repetitions, which is all that \<^verbatim>\<open>sorted(list(val))\<close> depends on.
\<close>

record yl_state =
  yl_output :: "(ylkey \<times> ylval) list"
  yl_cur_idx :: int
  yl_dis_idx :: nat
  yl_dict :: "(string \<times> string list) list"

text \<open>
  \<^verbatim>\<open>if subtopic not in year_level_dict: year_level_dict[subtopic] = set()\<close>, then the token
  is added to the subtopic's set and to the set of \<^verbatim>\<open>'All levels'\<close>.
\<close>

definition yl_summary ::
  "string \<Rightarrow> string \<Rightarrow> (string \<times> string list) list \<Rightarrow> py_error + (string \<times> string list) list" where
  "yl_summary subtopic year_level yld =
     (let yld1 = (if map_of yld subtopic = None then dict_set subtopic [] yld else yld) in
      bind_err (dict_get yld1 subtopic) (\<lambda>s.
      let yld2 = dict_set subtopic (set_add (''Y'' @ year_level) s) yld1 in
      bind_err (dict_get yld2 ''All levels'') (\<lambda>a.
      Inr (dict_set ''All levels'' (set_add (''Y'' @ year_level) a) yld2))))"

text \<open>
  \<^verbatim>\<open>for i in range(len(track)): node = track[i]; if next_node in node: ...\<close>: the loop has
  no \<^verbatim>\<open>break\<close>, so the last element that has the key wins.
\<close>

fun yl_search :: "string \<Rightarrow> (ylkey \<times> ylval) list list \<Rightarrow> nat \<Rightarrow> int \<times> bool \<Rightarrow> int \<times> bool" where
  "yl_search next_node [] i (cur_idx, node_exists) = (cur_idx, node_exists)"
| "yl_search next_node (node # nodes) i (cur_idx, node_exists) =
     yl_search next_node nodes (Suc i)
       (if map_of node (SKey next_node) \<noteq> None then (int i, True) else (cur_idx, node_exists))"

text \<open>
  The last part of the loop body, on the element \<^verbatim>\<open>track[cur_idx]\<close> of the second-level
  list: \<^verbatim>\<open>dis_idx = len(track); track[dis_idx] = entry\<close>, then, in
  \<^verbatim>\<open>track[next_node]\<close>, the index is stored under the column \<^verbatim>\<open>all_fields[DEPTH]\<close> or
  appended to the string that is there.  The result is the element after the row and
  \<^verbatim>\<open>dis_idx\<close>.
\<close>

definition yl_entry ::
  "string list \<Rightarrow> (string \<rightharpoonup> string) \<Rightarrow> string \<Rightarrow> string \<Rightarrow> (ylkey \<times> ylval) list
     \<Rightarrow> py_error + ((ylkey \<times> ylval) list \<times> nat)" where
  "yl_entry all_fields row topic entry node =
     (let dis_idx = length node;
          node1 = dict_set (IKey dis_idx) (YStr entry) node in
      bind_err (dict_get node1 (SKey topic)) (\<lambda>inner.
      bind_err (py_index all_fields (int DEPTH)) (\<lambda>field.
      bind_err (row_get row field) (\<lambda>next_node.
      case inner of
        YDict track \<Rightarrow>
          (case map_of track (SKey next_node) of
             None \<Rightarrow>
               Inr (dict_set (SKey topic)
                      (YDict (dict_set (SKey next_node) (YStr (str_nat dis_idx)) track)) node1, dis_idx)
           | Some (YStr s) \<Rightarrow>
               Inr (dict_set (SKey topic)
                      (YDict (dict_set (SKey next_node) (YStr (s @ '' '' @ str_nat dis_idx)) track)) node1, dis_idx)
           | Some _ \<Rightarrow> Inl TypeError)
      | _ \<Rightarrow> Inl TypeError))))"

text \<open>
  The body of \<^verbatim>\<open>for row in data\<close>.  The loop \<^verbatim>\<open>for i in range(DEPTH-2)\<close> runs for
  \<open>i = 0\<close> and \<open>i = 1\<close> and is written out: the first column enters or creates a dict,
  the second a list (resetting \<^verbatim>\<open>cur_idx\<close> when it creates one).  The values stored at
  these two levels are only ever the dict and the list created here, so the branches for
  other shapes are not reached; Python raises in them as well.
\<close>

definition yl_row :: "string list \<Rightarrow> (string \<rightharpoonup> string) \<Rightarrow> yl_state \<Rightarrow> py_error + yl_state" where
  "yl_row all_fields row st =
     bind_err (py_index all_fields IDX_CONTENT_TAG) (\<lambda>f_tag.
     bind_err (row_get row f_tag) (\<lambda>next_tag.
     bind_err (py_index all_fields IDX_YEAR_LEVEL) (\<lambda>f_yl.
     bind_err (row_get row f_yl) (\<lambda>year_level.
     bind_err (py_index all_fields IDX_SUBTOPIC) (\<lambda>f_sub.
     bind_err (row_get row f_sub) (\<lambda>subtopic.
     let entry = ''Y'' @ year_level @ '' '' @ next_tag in
     bind_err (yl_summary subtopic year_level (yl_dict st)) (\<lambda>yld.
     bind_err (py_index all_fields 0) (\<lambda>field0.
     bind_err (row_get row field0) (\<lambda>node0.
     bind_err (py_index all_fields 1) (\<lambda>field1.
     bind_err (row_get row field1) (\<lambda>node1.
     case (case map_of (yl_output st) (SKey node0) of None \<Rightarrow> YDict [] | Some v \<Rightarrow> v) of
       YDict track1 \<Rightarrow>
         let (track2, cur_idx1) =
               (case map_of track1 (SKey node1) of
                  None \<Rightarrow> (YList [], - 1)
                | Some v \<Rightarrow> (v, yl_cur_idx st)) in
         bind_err (py_index all_fields (int DEPTH - 1)) (\<lambda>field3.
         bind_err (row_get row field3) (\<lambda>topic.
         case track2 of
           YList nodes \<Rightarrow>
             let (cur_idx2, node_exists) = yl_search topic nodes 0 (cur_idx1, False);
                 nodes1 = (if \<not> node_exists then nodes @ [[(SKey topic, YDict [])]] else nodes);
                 cur_idx3 = (if \<not> node_exists then int (length nodes1) - 1 else cur_idx2) in
             bind_err (py_pos (length nodes1) cur_idx3) (\<lambda>pos.
             bind_err (yl_entry all_fields row topic entry (nodes1 ! pos)) (\<lambda>(node', dis_idx).
             Inr \<lparr>yl_output =
                    dict_set (SKey node0)
                      (YDict (dict_set (SKey node1) (YList (nodes1[pos := node'])) track1))
                      (yl_output st),
                  yl_cur_idx = cur_idx3,
                  yl_dis_idx = dis_idx + 1,
                  yl_dict = yld\<rparr>))
         | _ \<Rightarrow> Inl TypeError))
     | _ \<Rightarrow> Inl TypeError)))))))))))"

fun yl_rows :: "string list \<Rightarrow> (string \<rightharpoonup> string) list \<Rightarrow> yl_state \<Rightarrow> py_error + yl_state" where
  "yl_rows all_fields [] st = Inr st"
| "yl_rows all_fields (row # rs) st =
     bind_err (yl_row all_fields row st) (yl_rows all_fields rs)"

text \<open>
  \<^verbatim>\<open>for key, val in year_level_dict.items(): track[key] = ' '.join(sorted(list(val)))\<close>
  with \<^verbatim>\<open>track = output\<close>.
\<close>

fun yl_report :: "(string \<times> string list) list \<Rightarrow> (ylkey \<times> ylval) list \<Rightarrow> (ylkey \<times> ylval) list" where
  "yl_report [] track = track"
| "yl_report ((key, val) # rest) track =
     yl_report rest (dict_set (SKey key) (YStr (join_space (sort val))) track)"

definition yl_init :: yl_state where
  "yl_init = \<lparr>yl_output = [], yl_cur_idx = - 1, yl_dis_idx = 0, yl_dict = [(''All levels'', [])]\<rparr>"

definition construct_with_yl :: "csv_data \<Rightarrow> py_error + ylval" where
  "construct_with_yl data =
     bind_err (yl_rows (fieldnames data) (rows data) yl_init) (\<lambda>st.
     Inr (YDict (yl_report (yl_dict st) (yl_output st))))"

section \<open>The Labeler: \<^verbatim>\<open>add_label\<close>\<close>

text \<open>\<^verbatim>\<open>f"{depth+1}.{node_id[depth]}: {key}"\<close>, given the value read from \<^verbatim>\<open>node_id[depth]\<close>.\<close>

definition label :: "nat \<Rightarrow> nat \<Rightarrow> string \<Rightarrow> string" where
  "label depth n key = str_nat (depth + 1) @ ''.'' @ str_nat n @ '': '' @ key"

text \<open>
  \<^verbatim>\<open>for node in val\<close> in the list branch: \<^verbatim>\<open>track\<close> is the new list, \<^verbatim>\<open>depth\<close> has been
  incremented already.  The counters \<^verbatim>\<open>node_id\<close> start at 1 and are only incremented, so
  they are natural numbers; reading \<^verbatim>\<open>node_id[depth]\<close> beyond the end raises.
\<close>

fun label_list :: "string list \<Rightarrow> string list \<Rightarrow> nat \<Rightarrow> nat list \<Rightarrow> py_error + (string list \<times> nat list)" where
  "label_list [] track depth node_id = Inr (track, node_id)"
| "label_list (node # val) track depth node_id =
     bind_err (py_index node_id (int depth)) (\<lambda>n.
     label_list val (track @ [label depth n node]) depth (node_id[depth := n + 1]))"

text \<open>
  \<^verbatim>\<open>recur_add_label\<close> returns the dict \<^verbatim>\<open>track\<close> and the list \<^verbatim>\<open>node_id\<close> as the call
  leaves them.  \<open>label_items\<close> is the loop \<^verbatim>\<open>for next_key, next_val in val.items()\<close>
  (and the loop of \<^verbatim>\<open>add_label\<close> itself).
\<close>

fun recur_add_label ::
  "(string \<times> tree) list \<Rightarrow> string \<Rightarrow> tree \<Rightarrow> nat \<Rightarrow> nat list
     \<Rightarrow> py_error + ((string \<times> tree) list \<times> nat list)"
and label_items ::
  "(string \<times> tree) list \<Rightarrow> (string \<times> tree) list \<Rightarrow> nat \<Rightarrow> nat list
     \<Rightarrow> py_error + ((string \<times> tree) list \<times> nat list)" where
  "recur_add_label track key (Arr val) depth node_id =
     bind_err (py_index node_id (int depth)) (\<lambda>n.
     bind_err (label_list val [] (depth + 1) (node_id[depth := n + 1])) (\<lambda>(new, node_id').
     Inr (dict_set (label depth n key) (Arr new) track, node_id')))"
| "recur_add_label track key (Map val) depth node_id =
     bind_err (py_index node_id (int depth)) (\<lambda>n.
     bind_err (label_items val [] (depth + 1) (node_id[depth := n + 1])) (\<lambda>(new, node_id').
     Inr (dict_set (label depth n key) (Map new) track, node_id')))"
| "label_items [] track depth node_id = Inr (track, node_id)"
| "label_items ((key, val) # rest) track depth node_id =
     bind_err (recur_add_label track key val depth node_id) (\<lambda>(track', node_id').
     label_items rest track' depth node_id')"

text \<open>
  \<open>add_label_run\<close> is the body of \<^verbatim>\<open>add_label\<close> up to the \<^verbatim>\<open>return\<close>; it also gives the
  final value of the local list \<^verbatim>\<open>node_id\<close>.  \<^verbatim>\<open>data.items()\<close> on a list raises.
\<close>

definition add_label_run :: "tree \<Rightarrow> py_error + ((string \<times> tree) list \<times> nat list)" where
  "add_label_run data =
     (case data of
        Map m \<Rightarrow> label_items m [] 0 (replicate DEPTH 1)
      | Arr xs \<Rightarrow> Inl AttributeError)"

definition add_label :: "tree \<Rightarrow> py_error + tree" where
  "add_label data = bind_err (add_label_run data) (\<lambda>(output, node_id). Inr (Map output))"

section \<open>The Labeler on an explicit store\<close>

text \<open>
  \<^verbatim>\<open>add_label\<close> once more, now with the objects it reads and writes: Python dicts and lists
  are mutable objects held by reference, so the store is a list of objects and an
  address is a position in it.  A dict maps its keys to addresses; the strings in a list
  are immutable and stay values.  Creating an object (\<^verbatim>\<open>{}\<close>, \<^verbatim>\<open>[]\<close>) appends it to the
  store; \<^verbatim>\<open>track[k] = v\<close> and \<^verbatim>\<open>track.append(x)\<close> replace the object at the address
  \<^verbatim>\<open>track\<close>.  The functions return the store as the call leaves it, also when it raises.
\<close>

datatype obj = OList "string list" | ODict "(string \<times> nat) list"

type_synonym heap = "obj list"

text \<open>
  \<^verbatim>\<open>for node in val\<close> with \<^verbatim>\<open>track.append(labeled_node)\<close>: the first argument is what is left
  of the elements of \<^verbatim>\<open>val\<close>; \<^verbatim>\<open>append\<close> on a dict raises \<^verbatim>\<open>AttributeError\<close>.
\<close>

fun h_label_list ::
  "string list \<Rightarrow> nat \<Rightarrow> nat \<Rightarrow> nat list \<Rightarrow> heap \<Rightarrow> heap \<times> (py_error option + nat list)" where
  "h_label_list [] track depth node_id h = (h, Inr node_id)"
| "h_label_list (node # val) track depth node_id h =
     (case py_index node_id (int depth) of
        Inl e \<Rightarrow> (h, Inl (Some e))
      | Inr n \<Rightarrow>
          (case h ! track of
             OList ys \<Rightarrow>
               h_label_list val track depth (node_id[depth := n + 1])
                 (h[track := OList (ys @ [label depth n node])])
           | ODict m \<Rightarrow> (h, Inl (Some AttributeError))))"

text \<open>
  \<^verbatim>\<open>recur_add_label\<close> follows references, so its recursion is not structural: the first
  argument bounds the nesting of calls, and \<open>Inl None\<close> reports that the bound was reached
  (from \<open>h_add_label\<close> it never is, as is proved below).  The items of
  \<^verbatim>\<open>val.items()\<close> are those of \<^verbatim>\<open>val\<close> when the loop starts.  Item assignment on a list with
  a string raises \<^verbatim>\<open>TypeError\<close>, after the right-hand side has been created.
\<close>

fun h_recur_add_label ::
  "nat \<Rightarrow> nat \<Rightarrow> string \<Rightarrow> nat \<Rightarrow> nat \<Rightarrow> nat list \<Rightarrow> heap \<Rightarrow> heap \<times> (py_error option + nat list)"
and h_label_items ::
  "nat \<Rightarrow> (string \<times> nat) list \<Rightarrow> nat \<Rightarrow> nat \<Rightarrow> nat list \<Rightarrow> heap \<Rightarrow> heap \<times> (py_error option + nat list)" where
  "h_recur_add_label 0 track key val depth node_id h = (h, Inl None)"
| "h_recur_add_label (Suc fuel) track key val depth node_id h =
     (case py_index node_id (int depth) of
        Inl e \<Rightarrow> (h, Inl (Some e))
      | Inr n \<Rightarrow>
          (case h ! track of
             OList ys \<Rightarrow> (h @ [case h ! val of OList xs \<Rightarrow> OList [] | ODict items \<Rightarrow> ODict []],
                           Inl (Some TypeError))
           | ODict m \<Rightarrow>
               (case h ! val of
                  OList xs \<Rightarrow>
                    h_label_list xs (length h) (depth + 1) (node_id[depth := n + 1])
                      ((h @ [OList []])[track := ODict (dict_set (label depth n key) (length h) m)])
                | ODict items \<Rightarrow>
                    h_label_items fuel items (length h) (depth + 1) (node_id[depth := n + 1])
                      ((h @ [ODict []])[track := ODict (dict_set (label depth n key) (length h) m)]))))"
| "h_label_items fuel [] track depth node_id h = (h, Inr node_id)"
| "h_label_items fuel ((key, val) # rest) track depth node_id h =
     (case h_recur_add_label fuel track key val depth node_id h of
        (h', Inl e) \<Rightarrow> (h', Inl e)
      | (h', Inr node_id') \<Rightarrow> h_label_items fuel rest track depth node_id' h')"

definition h_add_label :: "nat \<Rightarrow> heap \<Rightarrow> heap \<times> (py_error option + nat)" where
  "h_add_label data h =
     (case h ! data of
        OList xs \<Rightarrow> (h @ [ODict []], Inl (Some AttributeError))
      | ODict items \<Rightarrow>
          (case h_label_items (DEPTH + 1) items (length h) 0 (replicate DEPTH 1) (h @ [ODict []]) of
             (h', Inl e) \<Rightarrow> (h', Inl e)
           | (h', Inr node_id) \<Rightarrow> (h', Inr (length h))))"

section \<open>Notions used to state the properties\<close>

text \<open>
  The terminal lists of a tree, each with the sequence of keys that leads to it, in the
  order of the dicts.
\<close>

fun arrays :: "tree \<Rightarrow> (string list \<times> string list) list" where
  "arrays (Arr xs) = [([], xs)]"
| "arrays (Map m) = concat (map (\<lambda>(k, c). map (\<lambda>(p, xs). (k # p, xs)) (arrays c)) m)"

text \<open>The list found by following a sequence of keys, if there is one.\<close>

fun arr_at :: "tree \<Rightarrow> string list \<Rightarrow> string list option" where
  "arr_at (Arr xs) [] = Some xs"
| "arr_at (Arr xs) (k # ks) = None"
| "arr_at (Map m) [] = None"
| "arr_at (Map m) (k # ks) = (case map_of m k of None \<Rightarrow> None | Some c \<Rightarrow> arr_at c ks)"

text \<open>Every dict of the tree has each key once, as a Python dict has.\<close>

fun wf_keys :: "tree \<Rightarrow> bool" where
  "wf_keys (Arr xs) = True"
| "wf_keys (Map m) = (distinct (map fst m) \<and> (\<forall>c \<in> snd ` set m. wf_keys c))"

text \<open>
  All terminal lists lie at the same depth \<open>n\<close>, below \<open>n\<close> levels of dicts.
\<close>

fun shaped :: "nat \<Rightarrow> tree \<Rightarrow> bool" where
  "shaped 0 (Arr xs) = True"
| "shaped 0 (Map m) = False"
| "shaped (Suc n) (Arr xs) = False"
| "shaped (Suc n) (Map m) = (\<forall>c \<in> snd ` set m. shaped n c)"

text \<open>
  Entering one row into a tree, stated on its own: \<open>ins p g t\<close> follows the keys \<open>p\<close>
  from the root, creating what is missing at the end of the dict where it is missing, and
  replaces the list \<open>xs\<close> found there by \<open>g xs\<close> (a new list starts from \<open>[]\<close>).  It is
  undefined when a list stands where a dict is needed or the other way round.
\<close>

fun fresh :: "string list \<Rightarrow> string list \<Rightarrow> tree" where
  "fresh [] xs = Arr xs"
| "fresh (k # ks) xs = Map [(k, fresh ks xs)]"

fun ins :: "string list \<Rightarrow> (string list \<Rightarrow> string list) \<Rightarrow> tree \<Rightarrow> tree option" where
  "ins [] g (Arr xs) = Some (Arr (g xs))"
| "ins [] g (Map m) = None"
| "ins (k # ks) g (Arr xs) = None"
| "ins (k # ks) g (Map m) =
     (case map_of m k of
        None \<Rightarrow> Some (Map (m @ [(k, fresh ks (g []))]))
      | Some c \<Rightarrow> map_option (\<lambda>c'. Map (dict_set k c' m)) (ins ks g c))"

text \<open>The value of a column in a row; the empty string stands in for a column the row lacks.\<close>

definition cell :: "(string \<rightharpoonup> string) \<Rightarrow> string \<Rightarrow> string" where
  "cell row f = (case row f of None \<Rightarrow> [] | Some v \<Rightarrow> v)"

text \<open>A list without its repetitions: each value stays where it occurs first.\<close>

fun first_occurrences :: "'a list \<Rightarrow> 'a list" where
  "first_occurrences [] = []"
| "first_occurrences (x # xs) = x # filter (\<lambda>y. y \<noteq> x) (first_occurrences xs)"

text \<open>The list of an optional list, empty when there is none.\<close>

definition opt_list :: "'a list option \<Rightarrow> 'a list" where
  "opt_list A = (case A of None \<Rightarrow> [] | Some xs \<Rightarrow> xs)"

text \<open>
  The summary dict of \<^verbatim>\<open>construct_with_yl\<close> is in order: each key once, and the set of
  \<^verbatim>\<open>'All levels'\<close> present and without repetitions.  \<open>all_levels\<close> is that set.
\<close>

definition yl_sets_ok :: "(string \<times> string list) list \<Rightarrow> bool" where
  "yl_sets_ok yld \<longleftrightarrow> distinct (map fst yld) \<and> (\<exists>a. map_of yld ''All levels'' = Some a \<and> distinct a)"

definition all_levels :: "(string \<times> string list) list \<Rightarrow> string set" where
  "all_levels yld = (case map_of yld ''All levels'' of None \<Rightarrow> {} | Some a \<Rightarrow> set a)"

text \<open>
  The elements of the second-level lists of a result of \<^verbatim>\<open>construct_with_yl\<close>: the result
  is a dict, its values that are dicts are the first level, their values that are lists
  are the second-level lists.
\<close>

fun yl_second :: "(ylkey \<times> ylval) list \<Rightarrow> (ylkey \<times> ylval) list list" where
  "yl_second [] = []"
| "yl_second ((k, YList nodes) # d) = nodes @ yl_second d"
| "yl_second (_ # d) = yl_second d"

fun yl_first :: "(ylkey \<times> ylval) list \<Rightarrow> (ylkey \<times> ylval) list list" where
  "yl_first [] = []"
| "yl_first ((k, YDict d) # m) = yl_second d @ yl_first m"
| "yl_first (_ # m) = yl_first m"

fun yl_elements :: "ylval \<Rightarrow> (ylkey \<times> ylval) list list" where
  "yl_elements (YDict m) = yl_first m"
| "yl_elements _ = []"

text \<open>
  The shape of such an element: a dict whose first key is a string (the topic) with a dict
  as value, followed by string values under the integer keys \<open>1, 2, 3, \<dots>\<close> in this order;
  \<open>elem_form\<close> asks for at least one of them, so that the dict has two keys or more.
\<close>

fun is_entries :: "nat \<Rightarrow> (ylkey \<times> ylval) list \<Rightarrow> bool" where
  "is_entries n [] = True"
| "is_entries n ((IKey i, YStr e) # rest) = (i = n \<and> is_entries (Suc n) rest)"
| "is_entries n (_ # rest) = False"

fun elem_started :: "(ylkey \<times> ylval) list \<Rightarrow> bool" where
  "elem_started ((SKey topic, YDict inner) # rest) = is_entries 1 rest"
| "elem_started _ = False"

definition elem_form :: "(ylkey \<times> ylval) list \<Rightarrow> bool" where
  "elem_form node \<longleftrightarrow> elem_started node \<and> 2 \<le> length node"

text \<open>
  What \<^verbatim>\<open>construct_with_yl\<close> builds, said without the loop.  The entry of a row is
  \<^verbatim>\<open>f"Y{year_level} {next_tag}"\<close>, made of its last and its second-to-last column.
\<close>

definition yl_entry_text :: "string list \<Rightarrow> (string \<rightharpoonup> string) \<Rightarrow> string" where
  "yl_entry_text fs r = ''Y'' @ cell r (last fs) @ '' '' @ cell r (fs ! (length fs - 2))"

text \<open>The values \<open>es\<close> under the integer keys \<open>n, n + 1, \<dots>\<close>, in this order.\<close>

fun yl_numbered :: "nat \<Rightarrow> string list \<Rightarrow> (ylkey \<times> ylval) list" where
  "yl_numbered n [] = []"
| "yl_numbered n (e # es) = (IKey n, YStr e) # yl_numbered (Suc n) es"

text \<open>The positions, counted from \<open>n\<close>, of the elements of a list that satisfy \<open>P\<close>.\<close>

fun positions :: "nat \<Rightarrow> ('a \<Rightarrow> bool) \<Rightarrow> 'a list \<Rightarrow> nat list" where
  "positions n P [] = []"
| "positions n P (x # xs) = (if P x then [n] else []) @ positions (Suc n) P xs"

text \<open>
  The inner dict of an element whose records have the values \<open>tags\<close> in column
  \<^verbatim>\<open>all_fields[DEPTH]\<close>: every such value, where it occurs first, is a string key, and its
  value is the string of the display indices of the records that have it, joined by spaces.
  The \<open>i\<close>-th record of the element has the display index \<open>i\<close>.  The inner dict has no
  integer key and holds no entry.
\<close>

definition yl_index_map :: "string list \<Rightarrow> (ylkey \<times> ylval) list" where
  "yl_index_map tags =
     map (\<lambda>tag. (SKey tag, YStr (join_space (map str_nat (positions 1 (\<lambda>x. x = tag) tags)))))
       (first_occurrences tags)"

text \<open>
  The element of a second-level list for the topic \<open>topic\<close> and its records \<open>rs\<close>, in row
  order: the topic key with the inner dict, then the entries of the records under the
  integer keys \<open>1, 2, \<dots>\<close>.  For no record yet it is \<^verbatim>\<open>{topic: {}}\<close>, the element
  as \<^verbatim>\<open>temp_cont\<close> creates it.
\<close>

definition yl_element :: "string list \<Rightarrow> string \<Rightarrow> (string \<rightharpoonup> string) list \<Rightarrow> (ylkey \<times> ylval) list" where
  "yl_element fs topic rs =
     (SKey topic, YDict (yl_index_map (map (\<lambda>r. cell r (fs ! DEPTH)) rs)))
       # yl_numbered 1 (map (yl_entry_text fs) rs)"

text \<open>
  The second-level list for the rows \<open>rs\<close> (those with one value in the first and one in
  the second column): one element for every topic, the value of column
  \<^verbatim>\<open>all_fields[DEPTH-1]\<close>, where it occurs first, with the rows of that topic.
\<close>

definition yl_nodes :: "string list \<Rightarrow> (string \<rightharpoonup> string) list \<Rightarrow> (ylkey \<times> ylval) list list" where
  "yl_nodes fs rs =
     map (\<lambda>topic. yl_element fs topic (filter (\<lambda>r. cell r (fs ! (DEPTH - 1)) = topic) rs))
       (first_occurrences (map (\<lambda>r. cell r (fs ! (DEPTH - 1))) rs))"

text \<open>The rows with \<open>a\<close> in the first and \<open>b\<close> in the second column.\<close>

definition yl_rows_at :: "string list \<Rightarrow> string \<Rightarrow> string \<Rightarrow> (string \<rightharpoonup> string) list \<Rightarrow> (string \<rightharpoonup> string) list" where
  "yl_rows_at fs a b rs = filter (\<lambda>r. cell r (fs ! 0) = a \<and> cell r (fs ! 1) = b) rs"

text \<open>\<^verbatim>\<open>out[a][b]\<close> when it is there and is a list.\<close>

fun yl_list_at :: "ylval \<Rightarrow> string \<Rightarrow> string \<Rightarrow> (ylkey \<times> ylval) list list option" where
  "yl_list_at (YDict m) a b =
     (case map_of m (SKey a) of
        Some (YDict d) \<Rightarrow> (case map_of d (SKey b) of Some (YList nodes) \<Rightarrow> Some nodes | _ \<Rightarrow> None)
      | _ \<Rightarrow> None)"
| "yl_list_at _ a b = None"

text \<open>
  The records of the element \<open>(a, b, t)\<close>, and the records of \<open>rs\<close> that go to the same
  element as the row \<open>r\<close>.
\<close>

definition yl_records ::
  "string list \<Rightarrow> string \<Rightarrow> string \<Rightarrow> string \<Rightarrow> (string \<rightharpoonup> string) list \<Rightarrow> (string \<rightharpoonup> string) list" where
  "yl_records fs a b t rs = filter (\<lambda>r. cell r (fs ! (DEPTH - 1)) = t) (yl_rows_at fs a b rs)"

definition yl_own :: "string list \<Rightarrow> (string \<rightharpoonup> string) \<Rightarrow> (string \<rightharpoonup> string) list \<Rightarrow> (string \<rightharpoonup> string) list" where
  "yl_own fs r rs = yl_records fs (cell r (fs ! 0)) (cell r (fs ! 1)) (cell r (fs ! (DEPTH - 1))) rs"

text \<open>
  The keys that the summary loop at the end of \<^verbatim>\<open>construct_with_yl\<close> writes at the top
  level: \<^verbatim>\<open>'All levels'\<close> and every value of the second column.  A first-column value
  that is one of them loses its subtree to the summary string.
\<close>

definition yl_summary_keys :: "csv_data \<Rightarrow> string set" where
  "yl_summary_keys data = insert ''All levels'' ((\<lambda>r. cell r (fieldnames data ! 1)) ` set (rows data))"

text \<open>
  The element that the record number \<open>j\<close> goes to, as the first \<open>n\<close> records leave it:
  with \<open>n = j\<close> it is the element found or created when the loop reaches the record, with
  \<open>n = j + 1\<close> the element after it, with all records the element of the result.
\<close>

definition yl_elem_upto :: "csv_data \<Rightarrow> nat \<Rightarrow> nat \<Rightarrow> (ylkey \<times> ylval) list" where
  "yl_elem_upto data j n =
     (let fs = fieldnames data; r = rows data ! j
      in yl_element fs (cell r (fs ! (DEPTH - 1))) (yl_own fs r (take n (rows data))))"

text \<open>
  The two dict levels above the lists are Python dicts: no key twice, string keys only.  The
  loop keeps this, and it keeps every second-level list equal to \<open>yl_nodes\<close> of the rows
  seen so far.
\<close>

definition yl_wf :: "(ylkey \<times> ylval) list \<Rightarrow> bool" where
  "yl_wf m \<longleftrightarrow> distinct (map fst m)
     \<and> (\<forall>k v. (k, v) \<in> set m \<longrightarrow> (\<exists>a. k = SKey a)
          \<and> (\<forall>d. v = YDict d \<longrightarrow> distinct (map fst d) \<and> (\<forall>k' \<in> fst ` set d. \<exists>b. k' = SKey b)))"

definition yl_inv :: "string list \<Rightarrow> (string \<rightharpoonup> string) list \<Rightarrow> (ylkey \<times> ylval) list \<Rightarrow> bool" where
  "yl_inv fs seen m \<longleftrightarrow> yl_wf m
     \<and> (\<forall>a b. yl_list_at (YDict m) a b =
           (if yl_rows_at fs a b seen = [] then None else Some (yl_nodes fs (yl_rows_at fs a b seen))))"

text \<open>
  The labels that \<^verbatim>\<open>add_label\<close> makes at depth \<open>e\<close> while it walks a value whose keys (or
  list elements) lie at depth \<open>d\<close>: one for each dict key and one for each list element
  at that depth.
\<close>

fun uses_val :: "nat \<Rightarrow> nat \<Rightarrow> tree \<Rightarrow> nat"
and uses_items :: "nat \<Rightarrow> nat \<Rightarrow> (string \<times> tree) list \<Rightarrow> nat" where
  "uses_val e d (Arr xs) = (if e = d then length xs else 0)"
| "uses_val e d (Map m) = uses_items e d m"
| "uses_items e d [] = 0"
| "uses_items e d ((k, v) # rest) =
     (if e = d then 1 else 0) + uses_val e (Suc d) v + uses_items e d rest"

text \<open>
  The labelling as the specification words it, without a traversal state: \<open>c e\<close> is the
  serial that the next label at depth \<open>e\<close> gets.  A key at depth \<open>d\<close> gets \<open>c d\<close>; below
  it the serial of depth \<open>d\<close> is one more; the next sibling continues, at every depth, after
  all the labels made for this key and below it.  The elements of a list get consecutive
  serials.  At the root every serial is 1.
\<close>

fun label_seq :: "nat \<Rightarrow> nat \<Rightarrow> string list \<Rightarrow> string list" where
  "label_seq d n [] = []"
| "label_seq d n (x # xs) = label d n x # label_seq d (Suc n) xs"

fun relabel_val :: "(nat \<Rightarrow> nat) \<Rightarrow> nat \<Rightarrow> tree \<Rightarrow> tree"
and relabel_items :: "(nat \<Rightarrow> nat) \<Rightarrow> nat \<Rightarrow> (string \<times> tree) list \<Rightarrow> (string \<times> tree) list" where
  "relabel_val c d (Arr xs) = Arr (label_seq d (c d) xs)"
| "relabel_val c d (Map m) = Map (relabel_items c d m)"
| "relabel_items c d [] = []"
| "relabel_items c d ((k, v) # rest) =
     (label d (c d) k, relabel_val (\<lambda>e. if e = d then c d + 1 else c e) (Suc d) v)
       # relabel_items (\<lambda>e. c e + (if e = d then 1 else 0) + uses_val e (Suc d) v) d rest"

text \<open>
  The value needs no counter beyond the first \<open>L\<close>: every dict key and every element of
  a list lies at a depth below \<open>L\<close>.
\<close>

fun fits_val :: "nat \<Rightarrow> nat \<Rightarrow> tree \<Rightarrow> bool"
and fits_items :: "nat \<Rightarrow> nat \<Rightarrow> (string \<times> tree) list \<Rightarrow> bool" where
  "fits_val L d (Arr xs) = (xs = [] \<or> d < L)"
| "fits_val L d (Map m) = fits_items L d m"
| "fits_items L d [] = True"
| "fits_items L d ((k, v) # rest) = (d < L \<and> fits_val L (Suc d) v \<and> fits_items L d rest)"

text \<open>Every key of the dict is a label of depth \<open>d\<close> with a serial below \<open>n\<close>.\<close>

definition keys_below :: "nat \<Rightarrow> nat \<Rightarrow> (string \<times> tree) list \<Rightarrow> bool" where
  "keys_below d n track \<longleftrightarrow> (\<forall>k \<in> fst ` set track. \<exists>n' k'. k = label d n' k' \<and> n' < n)"

text \<open>Reading a decimal numeral back, to tell the numerals of different numbers apart.\<close>

definition digit_val :: "char \<Rightarrow> nat" where
  "digit_val c = length (takeWhile (\<lambda>x. x \<noteq> c) ''0123456789'')"

definition nat_of_digits :: "string \<Rightarrow> nat" where
  "nat_of_digits s = foldl (\<lambda>a c. 10 * a + digit_val c) 0 s"

text \<open>
  The tree that the store holds at an address, read to a bounded depth; \<open>None\<close> if an
  address lies outside the store or the bound is reached.
\<close>

fun reify :: "nat \<Rightarrow> heap \<Rightarrow> nat \<Rightarrow> tree option"
and reify_items :: "nat \<Rightarrow> heap \<Rightarrow> (string \<times> nat) list \<Rightarrow> (string \<times> tree) list option" where
  "reify 0 h a = None"
| "reify (Suc n) h a =
     (if a < length h
      then (case h ! a of
              OList xs \<Rightarrow> Some (Arr xs)
            | ODict items \<Rightarrow> map_option Map (reify_items n h items))
      else None)"
| "reify_items n h [] = Some []"
| "reify_items n h ((k, a) # rest) =
     (case reify n h a of
        None \<Rightarrow> None
      | Some t \<Rightarrow> map_option ((#) (k, t)) (reify_items n h rest))"

text \<open>
  The addresses an object holds, and the stores in which the objects from address \<open>n0\<close>
  on hold addresses from \<open>n0\<close> on only.
\<close>

fun refs :: "obj \<Rightarrow> nat set" where
  "refs (OList xs) = {}"
| "refs (ODict m) = snd ` set m"

definition new_closed :: "nat \<Rightarrow> heap \<Rightarrow> bool" where
  "new_closed n0 h \<longleftrightarrow> (\<forall>a. n0 \<le> a \<and> a < length h \<longrightarrow> refs (h ! a) \<subseteq> {n0..<length h})"

text \<open>A small input used to instantiate the theorems: six columns, three rows.\<close>

definition ex_header :: "string list" where
  "ex_header = [''A'', ''B'', ''C'', ''D'', ''E'', ''F'']"

definition ex_row :: "string list \<Rightarrow> (string \<rightharpoonup> string)" where
  "ex_row vs = map_of (zip ex_header vs)"

definition ex_data :: csv_data where
  "ex_data = \<lparr>fieldnames = ex_header,
              rows = [ex_row [''x'', ''y'', ''p'', ''q'', ''t1'', ''7''],
                      ex_row [''x'', ''y'', ''p'', ''r'', ''t2'', ''10''],
                      ex_row [''x'', ''y'', ''p'', ''q'', ''t2'', ''7'']]\<rparr>"

text \<open>The same rows with other values in the last two columns.\<close>

definition ex_data' :: csv_data where
  "ex_data' = \<lparr>fieldnames = ex_header,
               rows = [ex_row [''x'', ''y'', ''p'', ''q'', ''u'', ''1''],
                       ex_row [''x'', ''y'', ''p'', ''r'', ''v'', ''2''],
                       ex_row [''x'', ''y'', ''p'', ''q'', ''w'', ''3'']]\<rparr>"

text \<open>An input whose two rows differ in the second column.\<close>

definition ex_wide :: csv_data where
  "ex_wide = \<lparr>fieldnames = ex_header,
              rows = [ex_row [''x'', ''y'', ''p'', ''q'', ''t1'', ''7''],
                      ex_row [''x'', ''z'', ''p'', ''q'', ''t2'', ''8'']]\<rparr>"


text \<open>An input with one row.\<close>

definition ex_one :: csv_data where
  "ex_one = \<lparr>fieldnames = ex_header, rows = [ex_row [''x'', ''y'', ''p'', ''q'', ''t1'', ''7'']]\<rparr>"

text \<open>
  A store with the tree \<^verbatim>\<open>{"x": {"y": {"p": ["q"]}, "z": {"p": ["q"]}}}\<close> at address 0.
\<close>

definition ex_heap :: heap where
  "ex_heap = [ODict [(''x'', 1)], ODict [(''y'', 2), (''z'', 4)], ODict [(''p'', 3)], OList [''q''],
              ODict [(''p'', 5)], OList [''q'']]"

section \<open>Dicts and row insertion\<close>

lemma map_of_dict_set: "map_of (dict_set k v m) = (map_of m)(k \<mapsto> v)"
  by (induction m) auto

lemma dict_set_new: "map_of m k = None \<Longrightarrow> dict_set k v m = m @ [(k, v)]"
  by (induction m) auto

lemma dict_set_same: "map_of m k = Some v \<Longrightarrow> dict_set k v m = m"
  by (induction m) auto

lemma keys_dict_set:
  "map fst (dict_set k v m) = (if map_of m k = None then map fst m @ [k] else map fst m)"
  by (induction m) auto

lemma set_dict_set: "set (dict_set k v m) \<subseteq> insert (k, v) (set m)"
  by (induction m) (auto split: if_splits)

lemma distinct_dict_set: "distinct (map fst m) \<Longrightarrow> distinct (map fst (dict_set k v m))"
  by (auto simp: keys_dict_set map_of_eq_None_iff)

lemma arr_at_fresh: "arr_at (fresh p xs) q = (if q = p then Some xs else None)"
  by (induction p arbitrary: q; case_tac q) auto

lemma wf_fresh: "wf_keys (fresh p xs)"
  by (induction p) auto

lemma map_of_snoc:
  "map_of (m @ [(k, v)]) a = (case map_of m a of None \<Rightarrow> (if a = k then Some v else None) | Some c \<Rightarrow> Some c)"
  by (induction m) auto

lemma arr_at_ins:
  "ins p g t = Some t' \<Longrightarrow>
   arr_at t' q = (if q = p then Some (g (case arr_at t p of None \<Rightarrow> [] | Some xs \<Rightarrow> xs)) else arr_at t q)"
proof (induction p g t arbitrary: t' q rule: ins.induct)
  case (1 g xs)
  then show ?case by (cases q) auto
next
  case (2 g m)
  then show ?case by simp
next
  case (3 k ks g xs)
  then show ?case by simp
next
  case (4 k ks g m)
  show ?case
  proof (cases q)
    case Nil
    with "4.prems" show ?thesis by (auto split: option.splits)
  next
    case (Cons a qs)
    show ?thesis
    proof (cases "map_of m k")
      case None
      with "4.prems" have t': "t' = Map (m @ [(k, fresh ks (g []))])" by simp
      show ?thesis
        unfolding t' Cons using None
        by (simp add: map_of_snoc arr_at_fresh del: map_of_append split: option.splits)
    next
      case (Some c)
      with "4.prems" obtain c' where c': "ins ks g c = Some c'" "t' = Map (dict_set k c' m)"
        by auto
      note IH = "4.IH"[OF Some c'(1), of qs]
      show ?thesis
      proof (cases "a = k")
        case True
        then show ?thesis unfolding c'(2) Cons using Some IH
          by (simp add: map_of_dict_set)
      next
        case False
        then show ?thesis unfolding c'(2) Cons
          by (simp add: map_of_dict_set)
      qed
    qed
  qed
qed

lemma wf_ins: "ins p g t = Some t' \<Longrightarrow> wf_keys t \<Longrightarrow> wf_keys t'"
proof (induction p g t arbitrary: t' rule: ins.induct)
  case (4 k ks g m)
  show ?case
  proof (cases "map_of m k")
    case None
    with 4 show ?thesis by (auto simp: wf_fresh map_of_eq_None_iff)
  next
    case (Some c)
    with 4 obtain c' where c': "ins ks g c = Some c'" "t' = Map (dict_set k c' m)" by auto
    have "wf_keys c" using Some "4.prems" by (auto dest!: map_of_SomeD) 
    then have "wf_keys c'" using "4.IH"[OF Some c'(1)] by simp
    then show ?thesis using c' "4.prems" set_dict_set[of k c' m]
      by (auto simp: distinct_dict_set)
  qed
qed auto

lemma arrays_arr_at: "wf_keys t \<Longrightarrow> (p, xs) \<in> set (arrays t) \<longleftrightarrow> arr_at t p = Some xs"
proof (induction t arbitrary: p)
  case (Arr ys)
  then show ?case by (cases p) auto
next
  case (Map m)
  show ?case
  proof (cases p)
    case Nil
    then show ?thesis by auto
  next
    case (Cons k ks)
    have "(k # ks, xs) \<in> set (arrays (Map m)) \<longleftrightarrow> (\<exists>c. (k, c) \<in> set m \<and> (ks, xs) \<in> set (arrays c))"
      by force
    also have "\<dots> \<longleftrightarrow> (\<exists>c. map_of m k = Some c \<and> (ks, xs) \<in> set (arrays c))"
      using Map.prems by auto
    also have "\<dots> \<longleftrightarrow> (\<exists>c. map_of m k = Some c \<and> arr_at c ks = Some xs)"
      using Map.IH Map.prems by (auto dest!: map_of_SomeD simp: snds.simps) 
    finally show ?thesis using Cons by (auto split: option.splits)
  qed
qed

lemma dict_set_twice: "dict_set k v (dict_set k v' m) = dict_set k v m"
  by (induction m) auto

lemma shaped_fresh: "shaped (length p) (fresh p xs)"
  by (induction p) auto

lemma shaped_ins: "ins p g t = Some t' \<Longrightarrow> shaped (length p) t \<Longrightarrow> shaped (length p) t'"
proof (induction p g t arbitrary: t' rule: ins.induct)
  case (4 k ks g m)
  show ?case
  proof (cases "map_of m k")
    case None
    with 4 show ?thesis by (auto simp: shaped_fresh)
  next
    case (Some c)
    with 4 obtain c' where c': "ins ks g c = Some c'" "t' = Map (dict_set k c' m)" by auto
    have "shaped (length ks) c" using Some "4.prems" by (auto dest!: map_of_SomeD)
    then have "shaped (length ks) c'" using "4.IH"[OF Some c'(1)] by simp
    then show ?thesis using c' "4.prems" set_dict_set[of k c' m]
      by auto
  qed
qed auto

lemma row_get_Inr: "row_get row f = Inr v \<Longrightarrow> row f = Some v \<and> cell row f = v"
  by (auto simp: row_get_def cell_def split: option.splits)

lemma py_index_m2: "py_index fs (- 2) = Inr f \<Longrightarrow> 2 \<le> length fs \<and> f = fs ! (length fs - 2)"
  by (auto simp: py_index_def py_pos_def Let_def nat_diff_distrib' split: if_splits)

lemma py_index_m1: "py_index fs (- 1) = Inr f \<Longrightarrow> 1 \<le> length fs \<and> f = last fs"
  by (auto simp: py_index_def py_pos_def Let_def nat_diff_distrib' last_conv_nth Suc_le_eq split: if_splits)

lemma bind_err_Inr: "bind_err m f = Inr r \<Longrightarrow> \<exists>v. m = Inr v \<and> f v = Inr r"
  by (cases m) auto

lemma ins_empty: "ins (k # ks) g (Map []) = Some (fresh (k # ks) (g []))"
  by simp

lemma json_leaf_ins:
  assumes "json_walk [] fs row t = Inr t'" "shaped (Suc 0) t"
  shows "2 \<le> length fs \<and> row (fs ! (length fs - 2)) \<noteq> None \<and> row (last fs) \<noteq> None
       \<and> ins [cell row (fs ! (length fs - 2))] (set_add (cell row (last fs))) t = Some t'"
proof -
  from assms(2) obtain m where t: "t = Map m" by (cases t) auto
  from assms(1) t obtain f2 where f2: "py_index fs (- 2) = Inr f2"
    by (auto dest!: bind_err_Inr)
  from assms(1) t f2 obtain k where k: "row_get row f2 = Inr k"
    by (auto dest!: bind_err_Inr)
  from assms(1) t f2 k obtain f1 where f1: "py_index fs (- 1) = Inr f1"
    by (auto simp: Let_def dest!: bind_err_Inr)
  from assms(1) t f2 k f1 obtain x where x: "row_get row f1 = Inr x"
    by (auto simp: Let_def dest!: bind_err_Inr)
  note F2 = py_index_m2[OF f2] and F1 = py_index_m1[OF f1]
  note K = row_get_Inr[OF k] and X = row_get_Inr[OF x]
  have res: "(case map_of (if map_of m k = None then dict_set k (Arr []) m else m) k of
        None \<Rightarrow> Inl KeyError
      | Some (Arr xs) \<Rightarrow>
          Inr (Map (if x \<notin> set xs
                    then dict_set k (Arr (xs @ [x])) (if map_of m k = None then dict_set k (Arr []) m else m)
                    else (if map_of m k = None then dict_set k (Arr []) m else m)))
      | Some (Map c) \<Rightarrow>
          (if map_of c x = None then Inl AttributeError
           else Inr (Map (if map_of m k = None then dict_set k (Arr []) m else m)))) = Inr t'"
    using assms(1) t f2 k f1 x by (simp add: Let_def)
  have "ins [k] (set_add x) (Map m) = Some t'"
  proof (cases "map_of m k")
    case None
    with res have "t' = Map (dict_set k (Arr [x]) (dict_set k (Arr []) m))"
      by (simp add: map_of_dict_set)
    then have "t' = Map (dict_set k (Arr [x]) m)"
      by (simp only: dict_set_twice)
    then have "t' = Map (m @ [(k, Arr [x])])"
      using None by (simp add: dict_set_new)
    with None show ?thesis by (simp add: set_add_def)
  next
    case (Some c)
    with assms(2) t have "shaped 0 c" by (auto dest!: map_of_SomeD)
    then obtain xs where c: "c = Arr xs" by (cases c) auto
    with Some res show ?thesis
      by (auto simp: set_add_def dict_set_same split: if_splits)
  qed
  with F2 F1 K X t show ?thesis by auto
qed

lemma json_walk_ins:
  assumes "json_walk flds fs row t = Inr t'" "shaped (Suc (length flds)) t"
  shows "2 \<le> length fs \<and> (\<forall>f \<in> set flds. row f \<noteq> None)
       \<and> row (fs ! (length fs - 2)) \<noteq> None \<and> row (last fs) \<noteq> None
       \<and> ins (map (cell row) flds @ [cell row (fs ! (length fs - 2))]) (set_add (cell row (last fs))) t = Some t'"
  using assms
proof (induction flds arbitrary: t t')
  case Nil
  then show ?case using json_leaf_ins[of fs row t t'] by simp
next
  case (Cons f flds)
  from Cons.prems(2) obtain m where t: "t = Map m" by (cases t) auto
  from Cons.prems(1) t obtain k where k: "row_get row f = Inr k"
    by (auto dest!: bind_err_Inr)
  let ?c = "case map_of m k of None \<Rightarrow> Map [] | Some c \<Rightarrow> c"
  from Cons.prems(1) t k obtain c' where c': "json_walk flds fs row ?c = Inr c'"
      and t': "t' = Map (dict_set k c' m)"
    by (auto dest!: bind_err_Inr)
  have sh: "shaped (Suc (length flds)) ?c"
    using Cons.prems(2) t by (auto split: option.splits dest!: map_of_SomeD)
  note IH = Cons.IH[OF c' sh]
  note K = row_get_Inr[OF k]
  let ?p = "map (cell row) flds @ [cell row (fs ! (length fs - 2))]"
  have "ins (k # ?p) (set_add (cell row (last fs))) (Map m) = Some t'"
  proof (cases "map_of m k")
    case None
    then have "ins ?p (set_add (cell row (last fs))) (Map []) = Some c'" using IH by simp
    then have "c' = fresh ?p (set_add (cell row (last fs)) [])"
      by (cases ?p) auto
    then show ?thesis using None t' by (simp add: dict_set_new)
  next
    case (Some c)
    then show ?thesis using IH t' by simp
  qed
  then show ?case using IH K t by auto
qed

lemma set_first_occurrences [simp]: "set (first_occurrences xs) = set xs"
  by (induction xs) auto

lemma distinct_first_occurrences [simp]: "distinct (first_occurrences xs)"
  by (induction xs) auto

lemma foldl_set_add:
  "foldl (\<lambda>a x. set_add x a) acc xs = acc @ filter (\<lambda>x. x \<notin> set acc) (first_occurrences xs)"
proof (induction xs arbitrary: acc)
  case Nil
  then show ?case by simp
next
  case (Cons x xs)
  show ?case
  proof (cases "x \<in> set acc")
    case True
    have "filter (\<lambda>y. y \<notin> set acc) (filter (\<lambda>y. y \<noteq> x) (first_occurrences xs))
        = filter (\<lambda>y. y \<notin> set acc) (first_occurrences xs)"
      using True by (auto intro: filter_cong)
    then show ?thesis using True Cons.IH[of acc] by (simp add: set_add_def)
  next
    case False
    have "filter (\<lambda>y. y \<notin> set (acc @ [x])) (first_occurrences xs)
        = filter (\<lambda>y. y \<notin> set acc) (filter (\<lambda>y. y \<noteq> x) (first_occurrences xs))"
      by (auto intro: filter_cong)
    then show ?thesis using False Cons.IH[of "acc @ [x]"] by (simp add: set_add_def)
  qed
qed

lemma foldl_leaf_update:
  "foldl (\<lambda>A r. if P r then Some (g r (opt_list A)) else A) A0 rs
   = (if filter P rs = [] then A0
      else Some (foldl (\<lambda>a r. g r a) (opt_list A0) (filter P rs)))"
  by (induction rs arbitrary: A0) (auto simp: opt_list_def)

lemma slice_m2_butlast:
  "2 \<le> length fs \<Longrightarrow> slice_to (- 2) fs @ [fs ! (length fs - 2)] = butlast fs"
proof -
  assume a: "2 \<le> length fs"
  then have "Suc (length fs - 2) = length fs - 1" by simp
  moreover have "length fs - 2 < length fs" using a by simp
  ultimately have "take (length fs - 1) fs = take (length fs - 2) fs @ [fs ! (length fs - 2)]"
    using take_Suc_conv_app_nth[of "length fs - 2" fs] by simp
  then show ?thesis by (simp add: slice_to_def butlast_conv_take)
qed

lemma json_rows_inv:
  assumes "json_rows fs rs t = Inr t'" "shaped (Suc (length (slice_to (- 2) fs))) t" "wf_keys t"
  shows "wf_keys t' \<and> shaped (Suc (length (slice_to (- 2) fs))) t' \<and> (rs \<noteq> [] \<longrightarrow> 2 \<le> length fs)
       \<and> (\<forall>q. arr_at t' q =
            foldl (\<lambda>A r. if map (cell r) (butlast fs) = q
                          then Some (set_add (cell r (last fs)) (opt_list A)) else A)
              (arr_at t q) rs)"
  using assms
proof (induction rs arbitrary: t)
  case Nil
  then show ?case by simp
next
  case (Cons r rs)
  from Cons.prems(1) obtain t1 where
    t1: "json_walk (slice_to (- 2) fs) fs r t = Inr t1" and rest: "json_rows fs rs t1 = Inr t'"
    by (auto dest!: bind_err_Inr)
  note W = json_walk_ins[OF t1 Cons.prems(2)]
  let ?p = "map (cell r) (slice_to (- 2) fs) @ [cell r (fs ! (length fs - 2))]"
  from W have len: "2 \<le> length fs"
    and ins: "ins ?p (set_add (cell r (last fs))) t = Some t1" by auto
  have p: "?p = map (cell r) (butlast fs)"
    using slice_m2_butlast[OF len, symmetric] by simp
  have sh1: "shaped (Suc (length (slice_to (- 2) fs))) t1"
    using shaped_ins[OF ins] Cons.prems(2) by simp
  have wf1: "wf_keys t1" using wf_ins[OF ins Cons.prems(3)] .
  note IH = Cons.IH[OF rest sh1 wf1]
  have step: "arr_at t1 q = (if map (cell r) (butlast fs) = q
                          then Some (set_add (cell r (last fs)) (opt_list (arr_at t q))) else arr_at t q)" for q
    using arr_at_ins[OF ins, of q] p by (auto simp: opt_list_def)
  show ?case using IH len by (simp add: step)
qed

section \<open>Empty record sequence\<close>

text \<open>
  C1 (as the code has it).  On an input with a header and no rows, \<^verbatim>\<open>construct_json\<close> and
  \<^verbatim>\<open>detailed_tree\<close> with depth 4 return the empty dict; \<^verbatim>\<open>construct_with_yl\<close> returns
  the dict with the single entry \<^verbatim>\<open>"All levels": ""\<close>, because the summary is initialised
  with that key and reported after the loop.
\<close>

theorem empty_rows_builders:
  assumes "rows data = []"
  shows "construct_json data 4 = Inr (Map [])
       \<and> detailed_tree data 4 = Inr (Map [])
       \<and> construct_with_yl data = Inr (YDict [(SKey ''All levels'', YStr '''')])"
  using assms by (simp add: construct_json_def detailed_tree_def construct_with_yl_def yl_init_def)

theorem empty_rows_builders_witness:
  "rows \<lparr>fieldnames = [''A'', ''B'', ''C'', ''D'', ''E''], rows = []\<rparr> = []
   \<and> construct_json \<lparr>fieldnames = [''A'', ''B'', ''C'', ''D'', ''E''], rows = []\<rparr> 4 = Inr (Map [])
   \<and> detailed_tree \<lparr>fieldnames = [''A'', ''B'', ''C'', ''D'', ''E''], rows = []\<rparr> 4 = Inr (Map [])
   \<and> construct_with_yl \<lparr>fieldnames = [''A'', ''B'', ''C'', ''D'', ''E''], rows = []\<rparr>
       = Inr (YDict [(SKey ''All levels'', YStr '''')])"
  using empty_rows_builders [of "\<lparr>fieldnames = [''A'', ''B'', ''C'', ''D'', ''E''], rows = []\<rparr>"]
  by simp

text \<open>
  C1 as stated fails for \<^verbatim>\<open>construct_with_yl\<close>: on the header \<^verbatim>\<open>A,B,C,D,E\<close> with no data
  rows its result is not the empty dict.
\<close>

theorem empty_rows_yl_counterexample:
  "construct_with_yl \<lparr>fieldnames = [''A'', ''B'', ''C'', ''D'', ''E''], rows = []\<rparr> \<noteq> Inr (YDict [])"
  by (simp add: construct_with_yl_def yl_init_def)

section \<open>The Plain Tree Builder\<close>

lemma py_index_mem: "py_index fs i = Inr f \<Longrightarrow> f \<in> set fs"
  by (auto simp: py_index_def py_pos_def Let_def split: if_splits)

lemma row_get_agree: "r1 f = r2 f \<Longrightarrow> row_get r1 f = row_get r2 f"
  by (simp add: row_get_def)

lemma bind_row_agree:
  assumes "\<forall>f \<in> set fs. r1 f = r2 f"
  shows "bind_err (py_index fs i) (\<lambda>f. bind_err (row_get r1 f) (F f))
       = bind_err (py_index fs i) (\<lambda>f. bind_err (row_get r2 f) (F f))"
proof (cases "py_index fs i")
  case (Inl e)
  then show ?thesis by simp
next
  case (Inr f)
  then have "row_get r1 f = row_get r2 f"
    using assms py_index_mem[of fs i f] by (simp add: row_get_def)
  with Inr show ?thesis by simp
qed

lemma json_walk_agree:
  assumes "\<forall>f \<in> set fs. r1 f = r2 f" "set flds \<subseteq> set fs"
  shows "json_walk flds fs r1 t = json_walk flds fs r2 t"
  using assms(2)
proof (induction flds arbitrary: t)
  case Nil
  note A = bind_row_agree[OF assms(1)]
  show ?case
  proof (cases t)
    case (Arr xs)
    have "json_walk [] fs r1 (Arr xs) =
       bind_err (py_index fs (- 2)) (\<lambda>f. bind_err (row_get r1 f) (\<lambda>next_node.
         if next_node \<notin> set xs then Inl TypeError
         else bind_err (py_index fs (- 1)) (\<lambda>f1.
              bind_err (row_get r1 f1) (\<lambda>sub_content. Inl TypeError))))"
      by (simp only: json_walk.simps)
    also have "\<dots> = bind_err (py_index fs (- 2)) (\<lambda>f. bind_err (row_get r2 f) (\<lambda>next_node.
         if next_node \<notin> set xs then Inl TypeError
         else bind_err (py_index fs (- 1)) (\<lambda>f1.
              bind_err (row_get r1 f1) (\<lambda>sub_content. Inl TypeError))))"
      by (rule A)
    also have "\<dots> = json_walk [] fs r2 (Arr xs)"
      by (simp only: json_walk.simps A[of "- 1"])
    finally show ?thesis using Arr by simp
  next
    case (Map m)
    have "json_walk [] fs r1 (Map m) =
       bind_err (py_index fs (- 2)) (\<lambda>f2. bind_err (row_get r1 f2) (\<lambda>next_node.
       let m1 = (if map_of m next_node = None then dict_set next_node (Arr []) m else m) in
       bind_err (py_index fs (- 1)) (\<lambda>f1.
       bind_err (row_get r1 f1) (\<lambda>sub_content.
       (case map_of m1 next_node of
          None \<Rightarrow> Inl KeyError
        | Some (Arr xs) \<Rightarrow>
            Inr (Map (if sub_content \<notin> set xs
                      then dict_set next_node (Arr (xs @ [sub_content])) m1 else m1))
        | Some (Map c) \<Rightarrow>
            (if map_of c sub_content = None then Inl AttributeError else Inr (Map m1)))))))"
      by (simp only: json_walk.simps)
    also have "\<dots> = json_walk [] fs r2 (Map m)"
      by (simp only: json_walk.simps Let_def A)
    finally show ?thesis using Map by simp
  qed
next
  case (Cons f flds)
  then have rg: "row_get r1 f = row_get r2 f" using assms(1) by (simp add: row_get_def)
  from Cons have IH: "json_walk flds fs r1 c = json_walk flds fs r2 c" for c by simp
  show ?case
  proof (cases t)
    case (Arr xs)
    then show ?thesis by (simp only: json_walk.simps rg)
  next
    case (Map m)
    then show ?thesis by (simp only: json_walk.simps rg IH)
  qed
qed

lemma json_rows_agree:
  assumes "list_all2 (\<lambda>r1 r2. \<forall>f \<in> set fs. r1 f = r2 f) rs1 rs2"
  shows "json_rows fs rs1 t = json_rows fs rs2 t"
  using assms
proof (induction rs1 rs2 arbitrary: t rule: list_all2_induct)
  case Nil
  then show ?case by simp
next
  case (Cons r1 rs1 r2 rs2)
  have "json_walk (slice_to (- 2) fs) fs r1 t = json_walk (slice_to (- 2) fs) fs r2 t"
    using Cons.hyps(1) by (intro json_walk_agree) (auto simp: slice_to_def dest: in_set_takeD)
  moreover have "json_rows fs rs1 = json_rows fs rs2" using Cons.IH by (intro ext)
  ultimately show ?case by (simp only: json_rows.simps)
qed

text \<open>
  C5.  In the result of \<^verbatim>\<open>construct_json\<close> every terminal list is free of repetitions,
  and the list found under the keys \<open>p\<close> holds the values of the last used column
  (column \<open>D-1\<close>) of the rows whose earlier used columns spell \<open>p\<close>, in the order in which
  each value occurs first among these rows.
\<close>

theorem plain_arrays_first_occurrence:
  assumes "construct_json data depth = Inr t" "(p, xs) \<in> set (arrays t)"
  shows "distinct xs \<and>
         xs = first_occurrences
                (map (\<lambda>r. cell r (last (slice_to depth (fieldnames data))))
                   (filter (\<lambda>r. map (cell r) (butlast (slice_to depth (fieldnames data))) = p)
                      (rows data)))"
proof -
  let ?fs = "slice_to depth (fieldnames data)"
  let ?P = "\<lambda>r. map (cell r) (butlast ?fs) = p"
  from assms(1) have run: "json_rows ?fs (rows data) (Map []) = Inr t"
    by (simp add: construct_json_def)
  have inv: "wf_keys t \<and> (\<forall>q. arr_at t q =
            foldl (\<lambda>A r. if map (cell r) (butlast ?fs) = q
                          then Some (set_add (cell r (last ?fs)) (opt_list A)) else A)
              (arr_at (Map []) q) (rows data))"
    using json_rows_inv[OF run] by simp
  then have "arr_at t p = Some xs" using assms(2) arrays_arr_at by blast
  moreover have "arr_at (Map []) p = None" by (cases p) auto
  ultimately have "foldl (\<lambda>A r. if ?P r then Some (set_add (cell r (last ?fs)) (opt_list A)) else A)
                     None (rows data) = Some xs"
    using inv by simp
  then have "filter ?P (rows data) \<noteq> [] \<and>
      xs = foldl (\<lambda>a r. set_add (cell r (last ?fs)) a) [] (filter ?P (rows data))"
    unfolding foldl_leaf_update[of ?P "\<lambda>r. set_add (cell r (last ?fs))"]
    by (auto simp: opt_list_def split: if_splits)
  then have "xs = foldl (\<lambda>a x. set_add x a) [] (map (\<lambda>r. cell r (last ?fs)) (filter ?P (rows data)))"
    by (simp add: foldl_map)
  then have "xs = first_occurrences (map (\<lambda>r. cell r (last ?fs)) (filter ?P (rows data)))"
    by (simp add: foldl_set_add)
  then show ?thesis by simp
qed

theorem plain_arrays_first_occurrence_witness:
  "construct_json ex_data 4 = Inr (Map [(''x'', Map [(''y'', Map [(''p'', Arr [''q'', ''r''])])])])
   \<and> ([''x'', ''y'', ''p''], [''q'', ''r''])
        \<in> set (arrays (Map [(''x'', Map [(''y'', Map [(''p'', Arr [''q'', ''r''])])])]))
   \<and> distinct [''q'', ''r'']
   \<and> [''q'', ''r''] = first_occurrences
        (map (\<lambda>r. cell r (last (slice_to 4 (fieldnames ex_data))))
           (filter (\<lambda>r. map (cell r) (butlast (slice_to 4 (fieldnames ex_data))) = [''x'', ''y'', ''p''])
              (rows ex_data)))"
proof -
  have h1: "construct_json ex_data 4 = Inr (Map [(''x'', Map [(''y'', Map [(''p'', Arr [''q'', ''r''])])])])"
    by (simp add: construct_json_def ex_data_def ex_header_def ex_row_def slice_to_def
        py_index_def py_pos_def row_get_def)
  have h2: "([''x'', ''y'', ''p''], [''q'', ''r''])
        \<in> set (arrays (Map [(''x'', Map [(''y'', Map [(''p'', Arr [''q'', ''r''])])])]))"
    by simp
  from plain_arrays_first_occurrence[OF h1 h2] h1 h2 show ?thesis by blast
qed

text \<open>
  C10.  The result of \<^verbatim>\<open>construct_json\<close> depends on the input only through the column
  names \<^verbatim>\<open>data.fieldnames[:depth]\<close> and the values of the rows in these columns: two
  inputs with the same such names, the same number of rows and, row by row, the same
  values in these columns give the same result (or raise the same error).
\<close>

theorem plain_depends_on_first_columns:
  assumes "slice_to depth (fieldnames d1) = slice_to depth (fieldnames d2)"
    and "list_all2 (\<lambda>r1 r2. \<forall>f \<in> set (slice_to depth (fieldnames d1)). r1 f = r2 f) (rows d1) (rows d2)"
  shows "construct_json d1 depth = construct_json d2 depth"
  using json_rows_agree[OF assms(2)] assms(1) by (simp add: construct_json_def)

theorem plain_depends_on_first_columns_witness:
  "slice_to 4 (fieldnames ex_data) = slice_to 4 (fieldnames ex_data')
   \<and> list_all2 (\<lambda>r1 r2. \<forall>f \<in> set (slice_to 4 (fieldnames ex_data)). r1 f = r2 f)
        (rows ex_data) (rows ex_data')
   \<and> rows ex_data \<noteq> rows ex_data'
   \<and> construct_json ex_data 4 = construct_json ex_data' 4"
proof -
  have h1: "slice_to 4 (fieldnames ex_data) = slice_to 4 (fieldnames ex_data')"
    by (simp add: ex_data_def ex_data'_def)
  have h2: "list_all2 (\<lambda>r1 r2. \<forall>f \<in> set (slice_to 4 (fieldnames ex_data)). r1 f = r2 f)
        (rows ex_data) (rows ex_data')"
    by (simp add: ex_data_def ex_data'_def ex_header_def ex_row_def slice_to_def)
  have "ex_row [''x'', ''y'', ''p'', ''q'', ''t1'', ''7''] ''E'' \<noteq> ex_row [''x'', ''y'', ''p'', ''q'', ''u'', ''1''] ''E''"
    by (simp add: ex_header_def ex_row_def)
  then have h3: "rows ex_data \<noteq> rows ex_data'"
    by (auto simp: ex_data_def ex_data'_def)
  from plain_depends_on_first_columns[OF h1 h2] h1 h2 h3 show ?thesis by blast
qed

section \<open>The Detailed Tree Builder\<close>

lemma detail_leaf_ins:
  assumes "detail_walk [] fs row t = Inr t'"
  shows "2 \<le> length fs \<and> row (fs ! (length fs - 2)) \<noteq> None \<and> row (last fs) \<noteq> None
       \<and> ins [''Y'' @ cell row (last fs)] (\<lambda>xs. xs @ [cell row (fs ! (length fs - 2))]) t = Some t'"
proof -
  from assms obtain m where t: "t = Map m"
    by (cases t) (auto dest!: bind_err_Inr split: if_splits)
  from assms t obtain f1 where f1: "py_index fs (- 1) = Inr f1"
    by (auto dest!: bind_err_Inr)
  from assms t f1 obtain y where y: "row_get row f1 = Inr y"
    by (auto dest!: bind_err_Inr)
  from assms t f1 y obtain f2 where f2: "py_index fs (- 2) = Inr f2"
    by (auto simp: Let_def dest!: bind_err_Inr)
  from assms t f1 y f2 obtain x where x: "row_get row f2 = Inr x"
    by (auto simp: Let_def dest!: bind_err_Inr)
  note F2 = py_index_m2[OF f2] and F1 = py_index_m1[OF f1]
  note Y = row_get_Inr[OF y] and X = row_get_Inr[OF x]
  let ?k = "''Y'' @ y"
  let ?m1 = "if map_of m ?k = None then dict_set ?k (Arr []) m else m"
  have res: "(case map_of ?m1 ?k of
        None \<Rightarrow> Inl KeyError
      | Some (Arr xs) \<Rightarrow> Inr (Map (dict_set ?k (Arr (xs @ [x])) ?m1))
      | Some (Map c) \<Rightarrow> Inl AttributeError) = Inr t'"
    using assms unfolding t by (simp only: detail_walk.simps f1 y f2 x bind_err_simps Let_def)
  have "ins [?k] (\<lambda>xs. xs @ [x]) (Map m) = Some t'"
  proof (cases "map_of m ?k")
    case None
    with res have "t' = Map (dict_set ?k (Arr [x]) (dict_set ?k (Arr []) m))"
      by (simp add: map_of_dict_set)
    then have "t' = Map (dict_set ?k (Arr [x]) m)"
      by (simp only: dict_set_twice)
    then have "t' = Map (m @ [(?k, Arr [x])])"
      using None by (simp add: dict_set_new)
    with None show ?thesis by simp
  next
    case (Some c)
    with res show ?thesis by (cases c) auto
  qed
  with F2 F1 Y X t show ?thesis by auto
qed

lemma detail_walk_ins:
  assumes "detail_walk flds fs row t = Inr t'"
  shows "2 \<le> length fs \<and> (\<forall>f \<in> set flds. row f \<noteq> None)
       \<and> row (fs ! (length fs - 2)) \<noteq> None \<and> row (last fs) \<noteq> None
       \<and> ins (map (cell row) flds @ [''Y'' @ cell row (last fs)])
             (\<lambda>xs. xs @ [cell row (fs ! (length fs - 2))]) t = Some t'"
  using assms
proof (induction flds arbitrary: t t')
  case Nil
  then show ?case using detail_leaf_ins[of fs row t t'] by simp
next
  case (Cons f flds)
  from Cons.prems obtain m where t: "t = Map m"
    by (cases t) (auto dest!: bind_err_Inr)
  from Cons.prems t obtain k where k: "row_get row f = Inr k"
    by (auto dest!: bind_err_Inr)
  let ?c = "case map_of m k of None \<Rightarrow> Map [] | Some c \<Rightarrow> c"
  from Cons.prems t k obtain c' where c': "detail_walk flds fs row ?c = Inr c'"
      and t': "t' = Map (dict_set k c' m)"
    by (auto dest!: bind_err_Inr)
  note IH = Cons.IH[OF c']
  note K = row_get_Inr[OF k]
  let ?p = "map (cell row) flds @ [''Y'' @ cell row (last fs)]"
  let ?g = "\<lambda>xs. xs @ [cell row (fs ! (length fs - 2))]"
  have "ins (k # ?p) ?g (Map m) = Some t'"
  proof (cases "map_of m k")
    case None
    then have "ins ?p ?g (Map []) = Some c'" using IH by simp
    then have "c' = fresh ?p (?g [])"
      by (cases ?p) auto
    then show ?thesis using None t' by (simp add: dict_set_new)
  next
    case (Some c)
    then show ?thesis using IH t' by simp
  qed
  then show ?case using IH K t by auto
qed

lemma detail_rows_inv:
  assumes "detail_rows fs depth rs t = Inr t'" "wf_keys t"
  shows "wf_keys t'
       \<and> (\<forall>q. arr_at t' q =
            foldl (\<lambda>A r. if map (cell r) (slice_to depth fs) @ [''Y'' @ cell r (last fs)] = q
                          then Some (opt_list A @ [cell r (fs ! (length fs - 2))]) else A)
              (arr_at t q) rs)"
  using assms
proof (induction rs arbitrary: t)
  case Nil
  then show ?case by simp
next
  case (Cons r rs)
  from Cons.prems(1) obtain t1 where
    t1: "detail_walk (slice_to depth fs) fs r t = Inr t1" and rest: "detail_rows fs depth rs t1 = Inr t'"
    by (auto dest!: bind_err_Inr)
  note W = detail_walk_ins[OF t1]
  let ?p = "map (cell r) (slice_to depth fs) @ [''Y'' @ cell r (last fs)]"
  let ?g = "\<lambda>xs. xs @ [cell r (fs ! (length fs - 2))]"
  from W have ins: "ins ?p ?g t = Some t1" by auto
  have wf1: "wf_keys t1" using wf_ins[OF ins Cons.prems(2)] .
  note IH = Cons.IH[OF rest wf1]
  have step: "arr_at t1 q = (if ?p = q then Some (opt_list (arr_at t q) @ [cell r (fs ! (length fs - 2))])
                             else arr_at t q)" for q
    using arr_at_ins[OF ins, of q] by (auto simp: opt_list_def)
  show ?case using IH by (simp add: step)
qed

lemma foldl_snoc_map: "foldl (\<lambda>a r. a @ [h r]) acc rs = acc @ map h rs"
  by (induction rs arbitrary: acc) auto

lemma detailed_arrays_all_rows:
  assumes "detailed_tree data depth = Inr t" "(p, xs) \<in> set (arrays t)"
  shows "xs = map (\<lambda>r. cell r (fieldnames data ! (length (fieldnames data) - 2)))
                (filter (\<lambda>r. map (cell r) (slice_to depth (fieldnames data))
                                @ [''Y'' @ cell r (last (fieldnames data))] = p)
                   (rows data))"
proof -
  let ?fs = "fieldnames data"
  let ?P = "\<lambda>r. map (cell r) (slice_to depth ?fs) @ [''Y'' @ cell r (last ?fs)] = p"
  let ?h = "\<lambda>r. cell r (?fs ! (length ?fs - 2))"
  from assms(1) have run: "detail_rows ?fs depth (rows data) (Map []) = Inr t"
    by (simp add: detailed_tree_def)
  have inv: "wf_keys t \<and> (\<forall>q. arr_at t q =
            foldl (\<lambda>A r. if map (cell r) (slice_to depth ?fs) @ [''Y'' @ cell r (last ?fs)] = q
                          then Some (opt_list A @ [?h r]) else A)
              (arr_at (Map []) q) (rows data))"
    using detail_rows_inv[OF run] by simp
  then have "arr_at t p = Some xs" using assms(2) arrays_arr_at by blast
  moreover have "arr_at (Map []) p = None" by (cases p) auto
  ultimately have "foldl (\<lambda>A r. if ?P r then Some (opt_list A @ [?h r]) else A)
                     None (rows data) = Some xs"
    using inv by simp
  then have "xs = foldl (\<lambda>a r. a @ [?h r]) [] (filter ?P (rows data))"
    unfolding foldl_leaf_update[of ?P "\<lambda>r a. a @ [?h r]"]
    by (auto simp: opt_list_def split: if_splits)
  then show ?thesis by (simp add: foldl_snoc_map)
qed




section \<open>The Year-Level Tree Builder\<close>

lemma set_add_set: "set (set_add x s) = insert x (set s)"
  by (auto simp: set_add_def)

lemma set_add_distinct: "distinct s \<Longrightarrow> distinct (set_add x s)"
  by (auto simp: set_add_def)

lemma dict_get_Inr: "dict_get d k = Inr v \<Longrightarrow> map_of d k = Some v"
  by (auto simp: dict_get_def split: option.splits)

lemma yl_summary_all_levels:
  assumes "yl_summary subtopic year_level yld = Inr yld'" "yl_sets_ok yld"
  shows "yl_sets_ok yld' \<and> all_levels yld' = insert (''Y'' @ year_level) (all_levels yld)"
proof -
  let ?tok = "''Y'' @ year_level"
  let ?yld1 = "if map_of yld subtopic = None then dict_set subtopic [] yld else yld"
  from assms(1) obtain s where s: "dict_get ?yld1 subtopic = Inr s"
    by (auto simp: yl_summary_def Let_def dest!: bind_err_Inr)
  let ?yld2 = "dict_set subtopic (set_add ?tok s) ?yld1"
  from assms(1) s obtain a where a: "dict_get ?yld2 ''All levels'' = Inr a"
      and r: "yld' = dict_set ''All levels'' (set_add ?tok a) ?yld2"
    by (auto simp: yl_summary_def Let_def dest!: bind_err_Inr)
  from assms(2) obtain a0 where a0: "map_of yld ''All levels'' = Some a0" "distinct a0"
      and dk: "distinct (map fst yld)"
    by (auto simp: yl_sets_ok_def)
  have d2: "distinct (map fst ?yld2)" using dk by (simp add: distinct_dict_set)
  have s1: "subtopic = ''All levels'' \<Longrightarrow> s = a0"
    using dict_get_Inr[OF s] a0 by (auto split: if_splits)
  have a2: "a = (if subtopic = ''All levels'' then set_add ?tok a0 else a0)"
    using dict_get_Inr[OF a] a0 s1 by (auto simp: map_of_dict_set split: if_splits)
  have "map_of yld' ''All levels'' = Some (set_add ?tok a)"
    using r by (simp add: map_of_dict_set)
  moreover have "distinct (set_add ?tok a)" using a2 a0 by (simp add: set_add_distinct)
  moreover have "set (set_add ?tok a) = insert ?tok (set a0)" using a2 by (auto simp: set_add_set)
  moreover have "distinct (map fst yld')" using r d2 by (simp only: distinct_dict_set)
  ultimately show ?thesis using a0 by (simp add: yl_sets_ok_def all_levels_def)
qed

lemma yl_row_summary:
  assumes "yl_row fs row st = Inr st'"
  shows "\<exists>subtopic. yl_summary subtopic (cell row (last fs)) (yl_dict st) = Inr (yl_dict st')"
proof -
  from assms obtain f_tag where 1: "py_index fs IDX_CONTENT_TAG = Inr f_tag"
    unfolding yl_row_def by (auto dest!: bind_err_Inr)
  from assms 1 obtain next_tag where 2: "row_get row f_tag = Inr next_tag"
    unfolding yl_row_def by (auto dest!: bind_err_Inr)
  from assms 1 2 obtain f_yl where 3: "py_index fs IDX_YEAR_LEVEL = Inr f_yl"
    unfolding yl_row_def by (auto dest!: bind_err_Inr)
  from assms 1 2 3 obtain year_level where 4: "row_get row f_yl = Inr year_level"
    unfolding yl_row_def by (auto dest!: bind_err_Inr)
  from assms 1 2 3 4 obtain f_sub where 5: "py_index fs IDX_SUBTOPIC = Inr f_sub"
    unfolding yl_row_def by (auto dest!: bind_err_Inr)
  from assms 1 2 3 4 5 obtain subtopic where 6: "row_get row f_sub = Inr subtopic"
    unfolding yl_row_def by (auto dest!: bind_err_Inr)
  from assms 1 2 3 4 5 6 obtain yld where 7: "yl_summary subtopic year_level (yl_dict st) = Inr yld"
    unfolding yl_row_def by (auto simp: Let_def dest!: bind_err_Inr)
  have yl: "year_level = cell row (last fs)"
    using py_index_m1[of fs f_yl] 3 row_get_Inr[OF 4] by (simp add: IDX_YEAR_LEVEL_def)
  have "yl_dict st' = yld"
    using assms unfolding yl_row_def
    by (simp add: 1 2 3 4 5 6 7 Let_def)
       (auto simp: Let_def dest!: bind_err_Inr split: ylval.splits option.splits prod.splits if_splits)
  with 7 yl show ?thesis by auto
qed


lemma yl_rows_all_levels:
  assumes "yl_rows fs rs st = Inr st'" "yl_sets_ok (yl_dict st)"
  shows "yl_sets_ok (yl_dict st')
       \<and> all_levels (yl_dict st') = (\<lambda>r. ''Y'' @ cell r (last fs)) ` set rs \<union> all_levels (yl_dict st)"
  using assms
proof (induction rs arbitrary: st)
  case Nil
  then show ?case by simp
next
  case (Cons r rs)
  from Cons.prems(1) obtain st1 where
    st1: "yl_row fs r st = Inr st1" and rest: "yl_rows fs rs st1 = Inr st'"
    by (auto dest!: bind_err_Inr)
  from yl_row_summary[OF st1] obtain subtopic where
    "yl_summary subtopic (cell r (last fs)) (yl_dict st) = Inr (yl_dict st1)" by blast
  note S = yl_summary_all_levels[OF this Cons.prems(2)]
  from Cons.IH[OF rest] S show ?case by auto
qed

lemma yl_report_other:
  "k \<notin> fst ` set yld \<Longrightarrow> map_of (yl_report yld track) (SKey k) = map_of track (SKey k)"
  by (induction yld track rule: yl_report.induct) (auto simp: map_of_dict_set)

lemma yl_report_key:
  "distinct (map fst yld) \<Longrightarrow> map_of yld k = Some v \<Longrightarrow>
   map_of (yl_report yld track) (SKey k) = Some (YStr (join_space (sort v)))"
proof (induction yld track rule: yl_report.induct)
  case (1 track)
  then show ?case by simp
next
  case (2 key val rest track)
  show ?case
  proof (cases "key = k")
    case True
    with 2 have "k \<notin> fst ` set rest" "val = v" by auto
    then show ?thesis using True by (simp add: yl_report_other map_of_dict_set)
  next
    case False
    with 2 show ?thesis by simp
  qed
qed

lemma ex_data_yl: "construct_with_yl ex_data = Inr (YDict
       [(SKey ''x'',
         YDict
          [(SKey ''y'',
            YList
             [[(SKey ''q'',
                YDict
                 [(SKey ''t1'', YStr ''1''), (SKey ''t2'', YStr ''2'')]),
               (IKey 1, YStr ''Y7 t1''), (IKey 2, YStr ''Y7 t2'')],
              [(SKey ''r'', YDict [(SKey ''t2'', YStr ''1'')]),
               (IKey 1, YStr ''Y10 t2'')]])]),
        (SKey ''All levels'', YStr ''Y10 Y7''),
        (SKey ''y'', YStr ''Y10 Y7'')])"
  by (simp add: construct_with_yl_def yl_init_def yl_row_def yl_entry_def yl_summary_def
      dict_get_def set_add_def ex_data_def ex_header_def ex_row_def
      py_index_def py_pos_def row_get_def DEPTH_def IDX_CONTENT_TAG_def IDX_YEAR_LEVEL_def
      IDX_SUBTOPIC_def Let_def str_nat.simps digit_char_def)

text \<open>
  C7.  Whenever \<^verbatim>\<open>construct_with_yl\<close> returns, its result has the key \<^verbatim>\<open>'All levels'\<close>, and
  the string stored there is the space-joined list of the tokens \<open>"Y" + year level\<close> of all
  rows (the year level is the last column), sorted ascending in the lexicographic order of
  strings, each token once however many rows share it.
\<close>

theorem yl_all_levels_sorted_tokens:
  assumes "construct_with_yl data = Inr out"
  shows "\<exists>m ts. out = YDict m
          \<and> map_of m (SKey ''All levels'') = Some (YStr (join_space ts))
          \<and> sorted ts \<and> distinct ts
          \<and> set ts = (\<lambda>r. ''Y'' @ cell r (last (fieldnames data))) ` set (rows data)"
proof -
  from assms obtain st where run: "yl_rows (fieldnames data) (rows data) yl_init = Inr st"
      and out: "out = YDict (yl_report (yl_dict st) (yl_output st))"
    by (auto simp: construct_with_yl_def dest!: bind_err_Inr)
  have ok0: "yl_sets_ok (yl_dict yl_init)" by (simp add: yl_sets_ok_def yl_init_def)
  have al0: "all_levels (yl_dict yl_init) = {}" by (simp add: all_levels_def yl_init_def)
  from yl_rows_all_levels[OF run ok0] al0
  have ok: "yl_sets_ok (yl_dict st)"
    and al: "all_levels (yl_dict st) = (\<lambda>r. ''Y'' @ cell r (last (fieldnames data))) ` set (rows data)"
    by auto
  from ok obtain a where a: "map_of (yl_dict st) ''All levels'' = Some a" "distinct a"
      and dk: "distinct (map fst (yl_dict st))"
    by (auto simp: yl_sets_ok_def)
  have "map_of (yl_report (yl_dict st) (yl_output st)) (SKey ''All levels'')
        = Some (YStr (join_space (sort a)))"
    using yl_report_key[OF dk a(1)] .
  moreover have "sorted (sort a)" "distinct (sort a)" using a(2) by simp_all
  moreover have "set (sort a) = (\<lambda>r. ''Y'' @ cell r (last (fieldnames data))) ` set (rows data)"
    using al a(1) by (simp add: all_levels_def)
  ultimately show ?thesis using out by blast
qed

theorem yl_all_levels_sorted_tokens_witness:
  "construct_with_yl ex_data = Inr (YDict
       [(SKey ''x'',
         YDict
          [(SKey ''y'',
            YList
             [[(SKey ''q'',
                YDict
                 [(SKey ''t1'', YStr ''1''), (SKey ''t2'', YStr ''2'')]),
               (IKey 1, YStr ''Y7 t1''), (IKey 2, YStr ''Y7 t2'')],
              [(SKey ''r'', YDict [(SKey ''t2'', YStr ''1'')]),
               (IKey 1, YStr ''Y10 t2'')]])]),
        (SKey ''All levels'', YStr ''Y10 Y7''),
        (SKey ''y'', YStr ''Y10 Y7'')])
   \<and> (\<exists>m ts. (YDict
       [(SKey ''x'',
         YDict
          [(SKey ''y'',
            YList
             [[(SKey ''q'',
                YDict
                 [(SKey ''t1'', YStr ''1''), (SKey ''t2'', YStr ''2'')]),
               (IKey 1, YStr ''Y7 t1''), (IKey 2, YStr ''Y7 t2'')],
              [(SKey ''r'', YDict [(SKey ''t2'', YStr ''1'')]),
               (IKey 1, YStr ''Y10 t2'')]])]),
        (SKey ''All levels'', YStr ''Y10 Y7''),
        (SKey ''y'', YStr ''Y10 Y7'')]) = YDict m
          \<and> map_of m (SKey ''All levels'') = Some (YStr (join_space ts))
          \<and> sorted ts \<and> distinct ts
          \<and> set ts = (\<lambda>r. ''Y'' @ cell r (last (fieldnames ex_data))) ` set (rows ex_data))"
  using yl_all_levels_sorted_tokens[OF ex_data_yl] ex_data_yl by blast

lemma set_yl_second:
  "set (yl_second d) = {node. \<exists>k nodes. (k, YList nodes) \<in> set d \<and> node \<in> set nodes}"
  by (induction d rule: yl_second.induct) auto

lemma set_yl_first:
  "set (yl_first m) = {node. \<exists>k d. (k, YDict d) \<in> set m \<and> node \<in> set (yl_second d)}"
  by (induction m rule: yl_first.induct) auto

lemma is_entries_keys:
  "is_entries n rest \<Longrightarrow> k \<in> fst ` set rest \<Longrightarrow> \<exists>i. k = IKey i \<and> n \<le> i \<and> i < n + length rest"
  by (induction n rest rule: is_entries.induct) fastforce+

lemma is_entries_snoc:
  "is_entries n rest \<Longrightarrow> is_entries n (rest @ [(IKey (n + length rest), YStr e)])"
  by (induction n rest rule: is_entries.induct) auto

lemma map_of_no_key: "k \<notin> set (map fst m) \<Longrightarrow> map_of m k = None"
  by (simp add: map_of_eq_None_iff)

lemma yl_entry_form:
  assumes "yl_entry fs row topic entry node = Inr (node', dis)" "elem_started node"
  shows "elem_form node' \<and> dis = length node"
proof -
  from assms(2) obtain t0 inner0 rest where
    node: "node = (SKey t0, YDict inner0) # rest" and rest: "is_entries 1 rest"
    by (cases node rule: elem_started.cases) auto
  let ?n = "length node"
  note keys = is_entries_keys[OF rest]
  have nokey: "map_of node (IKey ?n) = None"
  proof -
    have "IKey ?n \<notin> fst ` set rest" using keys[of "IKey ?n"] by (auto simp: node)
    then show ?thesis by (simp add: node map_of_eq_None_iff)
  qed
  have nostr: "map_of rest (SKey topic) = None"
    using keys[of "SKey topic"] by (auto simp: map_of_eq_None_iff)
  let ?node1 = "node @ [(IKey ?n, YStr entry)]"
  have n1: "dict_set (IKey ?n) (YStr entry) node = ?node1"
    using nokey by (rule dict_set_new)
  from assms(1) obtain inner where inner: "dict_get ?node1 (SKey topic) = Inr inner"
    unfolding yl_entry_def Let_def n1 by (auto dest!: bind_err_Inr)
  have tt: "topic = t0 \<and> inner = YDict inner0"
    using dict_get_Inr[OF inner] nostr unfolding node
    by (auto simp del: map_of_append simp: map_of_snoc split: if_splits option.splits)
  let ?R = "\<lambda>inner'. dict_set (SKey topic) (YDict inner') ?node1"
  have "bind_err (py_index fs (int DEPTH)) (\<lambda>field.
        bind_err (row_get row field) (\<lambda>next_node.
          (case map_of inner0 (SKey next_node) of
             None \<Rightarrow> Inr (?R (dict_set (SKey next_node) (YStr (str_nat ?n)) inner0), ?n)
           | Some (YStr s) \<Rightarrow>
               Inr (?R (dict_set (SKey next_node) (YStr (s @ '' '' @ str_nat ?n)) inner0), ?n)
           | Some _ \<Rightarrow> Inl TypeError))) = Inr (node', dis)"
    using assms(1) inner tt unfolding yl_entry_def Let_def n1 by simp
  then obtain next_node where
    c: "(case map_of inner0 (SKey next_node) of
             None \<Rightarrow> Inr (?R (dict_set (SKey next_node) (YStr (str_nat ?n)) inner0), ?n)
           | Some (YStr s) \<Rightarrow>
               Inr (?R (dict_set (SKey next_node) (YStr (s @ '' '' @ str_nat ?n)) inner0), ?n)
           | Some _ \<Rightarrow> Inl TypeError) = Inr (node', dis)"
    by (blast dest!: bind_err_Inr)
  have "\<exists>inner'. node' = ?R inner' \<and> dis = ?n"
  proof (cases "map_of inner0 (SKey next_node)")
    case None
    with c show ?thesis by auto
  next
    case (Some v)
    with c show ?thesis by (cases v) auto
  qed
  then obtain inner' where
    res: "node' = dict_set (SKey topic) (YDict inner') ?node1" and dis: "dis = ?n"
    by blast
  have "node' = (SKey t0, YDict inner') # rest @ [(IKey ?n, YStr entry)]"
    using res tt unfolding node by simp
  moreover have "is_entries 1 (rest @ [(IKey (1 + length rest), YStr entry)])"
    using is_entries_snoc[OF rest] .
  ultimately show ?thesis using dis by (simp add: elem_form_def node)
qed


lemma py_pos_Inr: "py_pos n i = Inr pos \<Longrightarrow> pos < n \<and> (0 \<le> i \<longrightarrow> int pos = i) \<and> (i < 0 \<longrightarrow> int pos = int n + i)"
  by (auto simp: py_pos_def Let_def split: if_splits)

lemma py_index_at: "py_index fs (int n) = Inr f \<Longrightarrow> n < length fs \<and> f = fs ! n"
  by (auto simp: py_index_def py_pos_def Let_def split: if_splits)

lemma yl_row_step:
  assumes "yl_row fs row st = Inr st'"
  shows "\<exists>track1 nodes nodes1 pos node' dis c1 cur2 ex.
     (map_of (yl_output st) (SKey (cell row (fs ! 0))) = None \<and> track1 = []
        \<or> map_of (yl_output st) (SKey (cell row (fs ! 0))) = Some (YDict track1))
   \<and> (map_of track1 (SKey (cell row (fs ! 1))) = None \<and> nodes = []
        \<or> map_of track1 (SKey (cell row (fs ! 1))) = Some (YList nodes))
   \<and> yl_search (cell row (fs ! (DEPTH - 1))) nodes 0 (c1, False) = (cur2, ex)
   \<and> (\<not> ex \<and> nodes1 = nodes @ [[(SKey (cell row (fs ! (DEPTH - 1))), YDict [])]] \<and> pos = length nodes
        \<or> ex \<and> nodes1 = nodes \<and> py_pos (length nodes) cur2 = Inr pos)
   \<and> yl_entry fs row (cell row (fs ! (DEPTH - 1))) (yl_entry_text fs row) (nodes1 ! pos) = Inr (node', dis)
   \<and> yl_output st' =
         dict_set (SKey (cell row (fs ! 0)))
           (YDict (dict_set (SKey (cell row (fs ! 1))) (YList (nodes1[pos := node'])) track1)) (yl_output st)
   \<and> yl_summary (cell row (fs ! 1)) (cell row (last fs)) (yl_dict st) = Inr (yl_dict st')"
proof -
  from assms obtain f_tag where 1: "py_index fs IDX_CONTENT_TAG = Inr f_tag"
    unfolding yl_row_def by (auto dest!: bind_err_Inr)
  from assms 1 obtain next_tag where 2: "row_get row f_tag = Inr next_tag"
    unfolding yl_row_def by (auto dest!: bind_err_Inr)
  from assms 1 2 obtain f_yl where 3: "py_index fs IDX_YEAR_LEVEL = Inr f_yl"
    unfolding yl_row_def by (auto dest!: bind_err_Inr)
  from assms 1 2 3 obtain year_level where 4: "row_get row f_yl = Inr year_level"
    unfolding yl_row_def by (auto dest!: bind_err_Inr)
  from assms 1 2 3 4 obtain f_sub where 5: "py_index fs IDX_SUBTOPIC = Inr f_sub"
    unfolding yl_row_def by (auto dest!: bind_err_Inr)
  from assms 1 2 3 4 5 obtain subtopic where 6: "row_get row f_sub = Inr subtopic"
    unfolding yl_row_def by (auto dest!: bind_err_Inr)
  from assms 1 2 3 4 5 6 obtain yld where 7: "yl_summary subtopic year_level (yl_dict st) = Inr yld"
    unfolding yl_row_def by (auto simp: Let_def dest!: bind_err_Inr)
  from assms 1 2 3 4 5 6 7 obtain field0 where 8: "py_index fs 0 = Inr field0"
    unfolding yl_row_def by (auto simp: Let_def dest!: bind_err_Inr)
  from assms 1 2 3 4 5 6 7 8 obtain node0 where 9: "row_get row field0 = Inr node0"
    unfolding yl_row_def by (auto simp: Let_def dest!: bind_err_Inr)
  from assms 1 2 3 4 5 6 7 8 9 obtain field1 where 10: "py_index fs 1 = Inr field1"
    unfolding yl_row_def by (auto simp: Let_def dest!: bind_err_Inr)
  from assms 1 2 3 4 5 6 7 8 9 10 obtain node1 where 11: "row_get row field1 = Inr node1"
    unfolding yl_row_def by (auto simp: Let_def dest!: bind_err_Inr)
  have next_tag: "next_tag = cell row (fs ! (length fs - 2))"
    using py_index_m2[of fs f_tag] 1 row_get_Inr[OF 2] by (simp add: IDX_CONTENT_TAG_def)
  have year_level: "year_level = cell row (last fs)"
    using py_index_m1[of fs f_yl] 3 row_get_Inr[OF 4] by (simp add: IDX_YEAR_LEVEL_def)
  have subtopic: "subtopic = cell row (fs ! 1)"
    using py_index_at[of fs 1 f_sub] 5 row_get_Inr[OF 6] by (simp add: IDX_SUBTOPIC_def)
  have node0: "node0 = cell row (fs ! 0)"
    using py_index_at[of fs 0 field0] 8 row_get_Inr[OF 9] by simp
  have node1: "node1 = cell row (fs ! 1)"
    using py_index_at[of fs 1 field1] 10 row_get_Inr[OF 11] by simp
  define entry where "entry = ''Y'' @ year_level @ '' '' @ next_tag"
  have entry: "entry = yl_entry_text fs row"
    unfolding entry_def yl_entry_text_def next_tag year_level ..
  define v0 where "v0 = (case map_of (yl_output st) (SKey node0) of None \<Rightarrow> YDict [] | Some v \<Rightarrow> v)"
  have E0: "(case v0 of
       YDict track1 \<Rightarrow>
         let (track2, cur_idx1) =
               (case map_of track1 (SKey node1) of
                  None \<Rightarrow> (YList [], - 1)
                | Some v \<Rightarrow> (v, yl_cur_idx st)) in
         bind_err (py_index fs (int DEPTH - 1)) (\<lambda>field3.
         bind_err (row_get row field3) (\<lambda>topic.
         case track2 of
           YList nodes \<Rightarrow>
             let (cur_idx2, node_exists) = yl_search topic nodes 0 (cur_idx1, False);
                 nodes1 = (if \<not> node_exists then nodes @ [[(SKey topic, YDict [])]] else nodes);
                 cur_idx3 = (if \<not> node_exists then int (length nodes1) - 1 else cur_idx2) in
             bind_err (py_pos (length nodes1) cur_idx3) (\<lambda>pos.
             bind_err (yl_entry fs row topic entry (nodes1 ! pos)) (\<lambda>(node', dis_idx).
             Inr \<lparr>yl_output =
                    dict_set (SKey node0)
                      (YDict (dict_set (SKey node1) (YList (nodes1[pos := node'])) track1))
                      (yl_output st),
                  yl_cur_idx = cur_idx3,
                  yl_dis_idx = dis_idx + 1,
                  yl_dict = yld\<rparr>))
         | _ \<Rightarrow> Inl TypeError))
     | _ \<Rightarrow> Inl TypeError) = Inr st'"
    using assms unfolding yl_row_def v0_def entry_def
    by (simp only: 1 2 3 4 5 6 7 8 9 10 11 bind_err_simps Let_def)
  then obtain track1 where v0: "v0 = YDict track1" by (cases v0) auto
  have A: "map_of (yl_output st) (SKey node0) = None \<and> track1 = []
        \<or> map_of (yl_output st) (SKey node0) = Some (YDict track1)"
    using v0 unfolding v0_def by (auto split: option.splits)
  define v1 c1 where "v1 = (case map_of track1 (SKey node1) of None \<Rightarrow> YList [] | Some v \<Rightarrow> v)"
    and "c1 = (case map_of track1 (SKey node1) of None \<Rightarrow> - 1 | Some v \<Rightarrow> yl_cur_idx st)"
  have pair: "(case map_of track1 (SKey node1) of
                  None \<Rightarrow> (YList [], - 1)
                | Some v \<Rightarrow> (v, yl_cur_idx st)) = (v1, c1)"
    unfolding v1_def c1_def by (auto split: option.splits)
  note E0' = E0[unfolded v0 ylval.case pair Let_def prod.case]
  obtain field3 where F3: "py_index fs (int DEPTH - 1) = Inr field3"
    using bind_err_Inr[OF E0'] by blast
  note E0'' = E0'[unfolded F3 bind_err_simps]
  obtain topic where T3: "row_get row field3 = Inr topic"
    using bind_err_Inr[OF E0''] by blast
  have d: "int (DEPTH - 1) = int DEPTH - 1" by (simp add: DEPTH_def)
  have "field3 = fs ! (DEPTH - 1)"
    using F3 py_index_at[of fs "DEPTH - 1" field3] unfolding d by blast
  then have topic: "topic = cell row (fs ! (DEPTH - 1))"
    using row_get_Inr[OF T3] by simp
  have E1: "(case v1 of
           YList nodes \<Rightarrow>
             let (cur_idx2, node_exists) = yl_search topic nodes 0 (c1, False);
                 nodes1 = (if \<not> node_exists then nodes @ [[(SKey topic, YDict [])]] else nodes);
                 cur_idx3 = (if \<not> node_exists then int (length nodes1) - 1 else cur_idx2) in
             bind_err (py_pos (length nodes1) cur_idx3) (\<lambda>pos.
             bind_err (yl_entry fs row topic entry (nodes1 ! pos)) (\<lambda>(node', dis_idx).
             Inr \<lparr>yl_output =
                    dict_set (SKey node0)
                      (YDict (dict_set (SKey node1) (YList (nodes1[pos := node'])) track1))
                      (yl_output st),
                  yl_cur_idx = cur_idx3,
                  yl_dis_idx = dis_idx + 1,
                  yl_dict = yld\<rparr>))
         | _ \<Rightarrow> Inl TypeError) = Inr st'"
    using E0''[unfolded T3 bind_err_simps] unfolding Let_def .
  then obtain nodes where v1: "v1 = YList nodes" by (cases v1) auto
  have B: "map_of track1 (SKey node1) = None \<and> nodes = []
        \<or> map_of track1 (SKey node1) = Some (YList nodes)"
    using v1 unfolding v1_def by (auto split: option.splits)
  obtain cur_idx2 node_exists where S: "yl_search topic nodes 0 (c1, False) = (cur_idx2, node_exists)"
    by (cases "yl_search topic nodes 0 (c1, False)") auto
  define nodes1 cur_idx3 where
    "nodes1 = (if \<not> node_exists then nodes @ [[(SKey topic, YDict [])]] else nodes)"
    and "cur_idx3 = (if \<not> node_exists then int (length nodes1) - 1 else cur_idx2)"
  from E1 obtain pos node' dis where
    P: "py_pos (length nodes1) cur_idx3 = Inr pos"
    and Y: "yl_entry fs row topic entry (nodes1 ! pos) = Inr (node', dis)"
    and R: "st' = \<lparr>yl_output =
                    dict_set (SKey node0)
                      (YDict (dict_set (SKey node1) (YList (nodes1[pos := node'])) track1))
                      (yl_output st),
                  yl_cur_idx = cur_idx3,
                  yl_dis_idx = dis + 1,
                  yl_dict = yld\<rparr>"
    unfolding v1 ylval.case S Let_def prod.case nodes1_def[symmetric] cur_idx3_def[symmetric]
    by (fastforce dest!: bind_err_Inr)
  have C: "\<not> node_exists \<and> nodes1 = nodes @ [[(SKey topic, YDict [])]] \<and> pos = length nodes
        \<or> node_exists \<and> nodes1 = nodes \<and> py_pos (length nodes) cur_idx2 = Inr pos"
    using py_pos_Inr[OF P] P unfolding cur_idx3_def nodes1_def by (auto split: if_splits)
  have R1: "yl_output st' = dict_set (SKey node0)
                      (YDict (dict_set (SKey node1) (YList (nodes1[pos := node'])) track1))
                      (yl_output st)" and R2: "yl_dict st' = yld"
    unfolding R by simp_all
  from A B S C Y R1 7 show ?thesis
    unfolding R2[symmetric] topic node0 node1 entry subtopic year_level
    by (intro exI[of _ track1] exI[of _ nodes] exI[of _ nodes1] exI[of _ pos]
        exI[of _ node'] exI[of _ dis] exI[of _ c1] exI[of _ cur_idx2] exI[of _ node_exists]) simp
qed

lemma yl_row_output:
  assumes "yl_row fs row st = Inr st'"
  shows "\<exists>node0 node1 track1 nodes nodes1 topic entry pos node' dis.
     (map_of (yl_output st) (SKey node0) = None \<and> track1 = []
        \<or> map_of (yl_output st) (SKey node0) = Some (YDict track1))
   \<and> (map_of track1 (SKey node1) = None \<and> nodes = []
        \<or> map_of track1 (SKey node1) = Some (YList nodes))
   \<and> (nodes1 = nodes \<and> pos < length nodes
        \<or> nodes1 = nodes @ [[(SKey topic, YDict [])]] \<and> pos = length nodes)
   \<and> yl_entry fs row topic entry (nodes1 ! pos) = Inr (node', dis)
   \<and> yl_output st' =
         dict_set (SKey node0)
           (YDict (dict_set (SKey node1) (YList (nodes1[pos := node'])) track1)) (yl_output st)"
proof -
  let ?a0 = "cell row (fs ! 0)" and ?b0 = "cell row (fs ! 1)" and ?t0 = "cell row (fs ! (DEPTH - 1))"
  from yl_row_step[OF assms] obtain track1 nodes nodes1 pos node' dis c1 cur2 ex where
      A: "map_of (yl_output st) (SKey ?a0) = None \<and> track1 = []
           \<or> map_of (yl_output st) (SKey ?a0) = Some (YDict track1)"
    and B: "map_of track1 (SKey ?b0) = None \<and> nodes = [] \<or> map_of track1 (SKey ?b0) = Some (YList nodes)"
    and C: "\<not> ex \<and> nodes1 = nodes @ [[(SKey ?t0, YDict [])]] \<and> pos = length nodes
        \<or> ex \<and> nodes1 = nodes \<and> py_pos (length nodes) cur2 = Inr pos"
    and Y: "yl_entry fs row ?t0 (yl_entry_text fs row) (nodes1 ! pos) = Inr (node', dis)"
    and R: "yl_output st' = dict_set (SKey ?a0)
              (YDict (dict_set (SKey ?b0) (YList (nodes1[pos := node'])) track1)) (yl_output st)"
    by blast
  from C py_pos_Inr have C': "nodes1 = nodes \<and> pos < length nodes
        \<or> nodes1 = nodes @ [[(SKey ?t0, YDict [])]] \<and> pos = length nodes"
    by blast
  from A B C' Y R show ?thesis by blast
qed


lemma yl_second_dict_set:
  "set (yl_second (dict_set k (YList nodes) d)) \<subseteq> set nodes \<union> set (yl_second d)"
  using set_dict_set[of k "YList nodes" d] by (fastforce simp: set_yl_second)

lemma yl_first_dict_set:
  "set (yl_first (dict_set k (YDict d) m)) \<subseteq> set (yl_second d) \<union> set (yl_first m)"
  using set_dict_set[of k "YDict d" m] by (fastforce simp: set_yl_first)

lemma yl_first_dict_set_str:
  "set (yl_first (dict_set k (YStr s) m)) \<subseteq> set (yl_first m)"
  using set_dict_set[of k "YStr s" m] by (fastforce simp: set_yl_first)

lemma yl_first_report: "set (yl_first (yl_report yld track)) \<subseteq> set (yl_first track)"
proof (induction yld track rule: yl_report.induct)
  case (1 track)
  then show ?case by simp
next
  case (2 key val rest track)
  then show ?case using yl_first_dict_set_str[of "SKey key" _ track] by fastforce
qed

lemma elem_form_started: "elem_form node \<Longrightarrow> elem_started node"
  by (simp add: elem_form_def)

lemma yl_row_elements:
  assumes "yl_row fs row st = Inr st'" "\<forall>node \<in> set (yl_first (yl_output st)). elem_form node"
  shows "\<forall>node \<in> set (yl_first (yl_output st')). elem_form node"
proof -
  from yl_row_output[OF assms(1)] obtain node0 node1 track1 nodes nodes1 topic entry pos node' dis
    where A: "map_of (yl_output st) (SKey node0) = None \<and> track1 = []
        \<or> map_of (yl_output st) (SKey node0) = Some (YDict track1)"
    and B: "map_of track1 (SKey node1) = None \<and> nodes = []
        \<or> map_of track1 (SKey node1) = Some (YList nodes)"
    and C: "nodes1 = nodes \<and> pos < length nodes
        \<or> nodes1 = nodes @ [[(SKey topic, YDict [])]] \<and> pos = length nodes"
    and Y: "yl_entry fs row topic entry (nodes1 ! pos) = Inr (node', dis)"
    and R: "yl_output st' =
         dict_set (SKey node0)
           (YDict (dict_set (SKey node1) (YList (nodes1[pos := node'])) track1)) (yl_output st)"
    by blast
  have t1: "set (yl_second track1) \<subseteq> set (yl_first (yl_output st))"
    using A by (auto simp: set_yl_first dest!: map_of_SomeD)
  have n: "set nodes \<subseteq> set (yl_second track1)"
    using B by (auto simp: set_yl_second dest!: map_of_SomeD)
  have nodes_ok: "\<forall>x \<in> set nodes. elem_form x" using n t1 assms(2) by blast
  have "elem_started (nodes1 ! pos)"
    using C nodes_ok by (auto simp: nth_append elem_form_started)
  from yl_entry_form[OF Y this] have node': "elem_form node'" by simp
  have "set (nodes1[pos := node']) \<subseteq> insert node' (set nodes)"
    using C set_update_subset_insert[of nodes pos node'] by auto
  then have new: "\<forall>x \<in> set (nodes1[pos := node']). elem_form x"
    using node' nodes_ok by blast
  have "set (yl_second (dict_set (SKey node1) (YList (nodes1[pos := node'])) track1))
        \<subseteq> set (nodes1[pos := node']) \<union> set (yl_second track1)"
    by (rule yl_second_dict_set)
  moreover have "set (yl_first (yl_output st'))
        \<subseteq> set (yl_second (dict_set (SKey node1) (YList (nodes1[pos := node'])) track1))
           \<union> set (yl_first (yl_output st))"
    unfolding R by (rule yl_first_dict_set)
  ultimately show ?thesis using new t1 assms(2) by blast
qed

lemma yl_rows_elements:
  assumes "yl_rows fs rs st = Inr st'" "\<forall>node \<in> set (yl_first (yl_output st)). elem_form node"
  shows "\<forall>node \<in> set (yl_first (yl_output st')). elem_form node"
  using assms
proof (induction rs arbitrary: st)
  case Nil
  then show ?case by simp
next
  case (Cons r rs)
  from Cons.prems(1) obtain st1 where
    st1: "yl_row fs r st = Inr st1" and rest: "yl_rows fs rs st1 = Inr st'"
    by (auto dest!: bind_err_Inr)
  from Cons.IH[OF rest yl_row_elements[OF st1 Cons.prems(2)]] show ?case .
qed

lemma yl_output_elements:
  assumes "construct_with_yl data = Inr out"
  shows "\<forall>node \<in> set (yl_elements out). elem_form node"
proof -
  from assms obtain st where run: "yl_rows (fieldnames data) (rows data) yl_init = Inr st"
      and out: "out = YDict (yl_report (yl_dict st) (yl_output st))"
    by (auto simp: construct_with_yl_def dest!: bind_err_Inr)
  have "\<forall>node \<in> set (yl_first (yl_output yl_init)). elem_form node"
    by (simp add: yl_init_def)
  from yl_rows_elements[OF run this] yl_first_report[of "yl_dict st" "yl_output st"]
  show ?thesis unfolding out by auto
qed

lemma ex_one_yl:
  "construct_with_yl ex_one = Inr (YDict [(SKey ''x'', YDict [(SKey ''y'', YList [[(SKey ''q'', YDict [(SKey ''t1'', YStr ''1'')]), (IKey 1, YStr ''Y7 t1'')]])]),
        (SKey ''All levels'', YStr ''Y7''), (SKey ''y'', YStr ''Y7'')])"
  by (simp add: construct_with_yl_def yl_init_def yl_row_def yl_entry_def yl_summary_def
      dict_get_def set_add_def ex_one_def ex_header_def ex_row_def
      py_index_def py_pos_def row_get_def DEPTH_def IDX_CONTENT_TAG_def IDX_YEAR_LEVEL_def
      IDX_SUBTOPIC_def Let_def str_nat.simps digit_char_def)

lemma first_occurrences_snoc:
  "first_occurrences (xs @ [y]) = (if y \<in> set xs then first_occurrences xs else first_occurrences xs @ [y])"
  by (induction xs) auto

lemma positions_snoc:
  "positions n P (xs @ [y]) = positions n P xs @ (if P y then [n + length xs] else [])"
  by (induction xs arbitrary: n) auto

lemma positions_none: "\<forall>x \<in> set xs. \<not> P x \<Longrightarrow> positions n P xs = []"
  by (induction xs arbitrary: n) auto

lemma positions_some: "x \<in> set xs \<Longrightarrow> P x \<Longrightarrow> positions n P xs \<noteq> []"
  by (induction xs arbitrary: n) auto

lemma yl_numbered_snoc:
  "yl_numbered n (es @ [e]) = yl_numbered n es @ [(IKey (n + length es), YStr e)]"
  by (induction es arbitrary: n) auto

lemma yl_numbered_length [simp]: "length (yl_numbered n es) = length es"
  by (induction es arbitrary: n) auto

lemma yl_numbered_keys: "k \<in> fst ` set (yl_numbered n es) \<Longrightarrow> \<exists>i. k = IKey i \<and> n \<le> i \<and> i < n + length es"
  by (induction es arbitrary: n) fastforce+

lemma yl_numbered_nth: "yl_numbered n (xs @ e # ys) ! length xs = (IKey (n + length xs), YStr e)"
  by (induction xs arbitrary: n) auto

lemma join_space_snoc: "xs \<noteq> [] \<Longrightarrow> join_space (xs @ [y]) = join_space xs @ '' '' @ y"
  by (induction xs rule: join_space.induct) auto

lemma dict_set_map_new:
  "t \<notin> set ts \<Longrightarrow> dict_set (SKey t) v (map (\<lambda>x. (SKey x, g x)) ts) = map (\<lambda>x. (SKey x, g x)) ts @ [(SKey t, v)]"
  by (induction ts) auto

lemma dict_set_map_old:
  "t \<in> set ts \<Longrightarrow> distinct ts \<Longrightarrow>
   dict_set (SKey t) v (map (\<lambda>x. (SKey x, g x)) ts) = map (\<lambda>x. (SKey x, if x = t then v else g x)) ts"
  by (induction ts) auto

lemma map_of_map_key:
  "map_of (map (\<lambda>x. (SKey x, g x)) ts) (SKey t) = (if t \<in> set ts then Some (g t) else None)"
  by (induction ts) auto

lemma yl_index_map_snoc_new:
  assumes "tag \<notin> set tags"
  shows "yl_index_map (tags @ [tag]) = yl_index_map tags @ [(SKey tag, YStr (str_nat (Suc (length tags))))]"
proof -
  have "positions 1 (\<lambda>x. x = tag) tags = []" using assms by (intro positions_none) auto
  moreover have "map (\<lambda>t. (SKey t, YStr (join_space (map str_nat (positions 1 (\<lambda>x. x = t) (tags @ [tag]))))))
          (first_occurrences tags)
      = map (\<lambda>t. (SKey t, YStr (join_space (map str_nat (positions 1 (\<lambda>x. x = t) tags)))))
          (first_occurrences tags)"
    using assms by (intro map_cong) (auto simp: positions_snoc)
  ultimately show ?thesis using assms
    by (simp add: yl_index_map_def first_occurrences_snoc positions_snoc)
qed

lemma yl_index_map_snoc_old:
  assumes "tag \<in> set tags"
  shows "yl_index_map (tags @ [tag]) =
           map (\<lambda>t. (SKey t, if t = tag
                  then YStr (join_space (map str_nat (positions 1 (\<lambda>x. x = tag) tags)) @ '' '' @ str_nat (Suc (length tags)))
                  else YStr (join_space (map str_nat (positions 1 (\<lambda>x. x = t) tags)))))
             (first_occurrences tags)"
proof -
  have ne: "positions 1 (\<lambda>x. x = tag) tags \<noteq> []" using assms by (intro positions_some[of tag]) auto
  show ?thesis using assms ne
    unfolding yl_index_map_def
    by (simp add: first_occurrences_snoc) (auto simp: positions_snoc join_space_snoc intro!: map_cong)
qed

lemma yl_element_length [simp]: "length (yl_element fs t rs) = Suc (length rs)"
  by (simp add: yl_element_def)

lemma yl_element_key:
  "map_of (yl_element fs t rs) (SKey t') = (if t' = t then Some (YDict (yl_index_map (map (\<lambda>r. cell r (fs ! DEPTH)) rs))) else None)"
proof -
  have "SKey t' \<notin> fst ` set (yl_numbered 1 (map (yl_entry_text fs) rs))"
    using yl_numbered_keys[of "SKey t'"] by blast
  then have "map_of (yl_numbered 1 (map (yl_entry_text fs) rs)) (SKey t') = None"
    by (simp add: map_of_eq_None_iff)
  then show ?thesis by (simp add: yl_element_def)
qed

lemma yl_element_empty: "yl_element fs t [] = [(SKey t, YDict [])]"
  by (simp add: yl_element_def yl_index_map_def)

lemma yl_entry_element:
  assumes "yl_entry fs r t (yl_entry_text fs r) (yl_element fs t rs) = Inr (node', dis)"
  shows "node' = yl_element fs t (rs @ [r]) \<and> dis = Suc (length rs)"
proof -
  let ?tags = "map (\<lambda>r. cell r (fs ! DEPTH)) rs"
  let ?es = "map (yl_entry_text fs) rs"
  let ?e = "yl_entry_text fs r"
  let ?inner0 = "yl_index_map ?tags"
  let ?node = "yl_element fs t rs"
  let ?n = "Suc (length rs)"
  have node: "?node = (SKey t, YDict ?inner0) # yl_numbered 1 ?es" by (simp add: yl_element_def)
  have len: "length ?node = ?n" by simp
  have nokey: "map_of ?node (IKey ?n) = None"
  proof -
    have "IKey ?n \<notin> fst ` set (yl_numbered 1 ?es)" using yl_numbered_keys[of "IKey ?n" 1 ?es] by auto
    then show ?thesis by (simp add: node map_of_eq_None_iff)
  qed
  let ?node1 = "?node @ [(IKey ?n, YStr ?e)]"
  have n1: "dict_set (IKey ?n) (YStr ?e) ?node = ?node1"
    using nokey by (rule dict_set_new)
  have get: "dict_get ?node1 (SKey t) = Inr (YDict ?inner0)"
    by (simp add: dict_get_def node)
  let ?R = "\<lambda>inner'. dict_set (SKey t) (YDict inner') ?node1"
  have E: "bind_err (py_index fs (int DEPTH)) (\<lambda>field.
        bind_err (row_get r field) (\<lambda>next_node.
          (case map_of ?inner0 (SKey next_node) of
             None \<Rightarrow> Inr (?R (dict_set (SKey next_node) (YStr (str_nat ?n)) ?inner0), ?n)
           | Some (YStr s) \<Rightarrow>
               Inr (?R (dict_set (SKey next_node) (YStr (s @ '' '' @ str_nat ?n)) ?inner0), ?n)
           | Some _ \<Rightarrow> Inl TypeError))) = Inr (node', dis)"
    using assms unfolding yl_entry_def Let_def len unfolding n1 get bind_err_simps ylval.case .
  then obtain field where f: "py_index fs (int DEPTH) = Inr field" by (blast dest!: bind_err_Inr)
  from E f obtain tag where g: "row_get r field = Inr tag" by (auto dest!: bind_err_Inr)
  have tag: "tag = cell r (fs ! DEPTH)" using py_index_at[OF f] row_get_Inr[OF g] by simp
  have c: "(case map_of ?inner0 (SKey tag) of
             None \<Rightarrow> Inr (?R (dict_set (SKey tag) (YStr (str_nat ?n)) ?inner0), ?n)
           | Some (YStr s) \<Rightarrow>
               Inr (?R (dict_set (SKey tag) (YStr (s @ '' '' @ str_nat ?n)) ?inner0), ?n)
           | Some _ \<Rightarrow> Inl TypeError) = Inr (node', dis)"
    using E unfolding f g bind_err_simps .
  have R: "?R inner' = (SKey t, YDict inner') # yl_numbered 1 ?es @ [(IKey ?n, YStr ?e)]" for inner'
    by (simp add: node)
  have target: "yl_element fs t (rs @ [r])
      = (SKey t, YDict (yl_index_map (?tags @ [tag]))) # yl_numbered 1 ?es @ [(IKey ?n, YStr ?e)]"
    by (simp add: yl_element_def yl_numbered_snoc tag)
  have lookup: "map_of ?inner0 (SKey tag) =
      (if tag \<in> set ?tags then Some (YStr (join_space (map str_nat (positions 1 (\<lambda>x. x = tag) ?tags)))) else None)"
    unfolding yl_index_map_def map_of_map_key by simp
  show ?thesis
  proof (cases "tag \<in> set ?tags")
    case False
    then have no: "map_of ?inner0 (SKey tag) = None" using lookup by simp
    have "dict_set (SKey tag) (YStr (str_nat ?n)) ?inner0 = yl_index_map (?tags @ [tag])"
      using dict_set_new[OF no] yl_index_map_snoc_new[OF False] by simp
    moreover from c no have "node' = ?R (dict_set (SKey tag) (YStr (str_nat ?n)) ?inner0)" "dis = ?n"
      by auto
    ultimately show ?thesis unfolding target R by simp
  next
    case True
    let ?s = "join_space (map str_nat (positions 1 (\<lambda>x. x = tag) ?tags))"
    have yes: "map_of ?inner0 (SKey tag) = Some (YStr ?s)" using lookup True by simp
    have "dict_set (SKey tag) (YStr (?s @ '' '' @ str_nat ?n)) ?inner0 = yl_index_map (?tags @ [tag])"
      unfolding yl_index_map_snoc_old[OF True]
      unfolding yl_index_map_def
      using dict_set_map_old[of tag "first_occurrences ?tags" "YStr (?s @ '' '' @ str_nat ?n)"
          "\<lambda>t. YStr (join_space (map str_nat (positions 1 (\<lambda>x. x = t) ?tags)))"] True
      by simp
    moreover from c yes have "node' = ?R (dict_set (SKey tag) (YStr (?s @ '' '' @ str_nat ?n)) ?inner0)" "dis = ?n"
      by auto
    ultimately show ?thesis unfolding target R by simp
  qed
qed

lemma yl_search_none:
  "\<forall>node \<in> set nodes. map_of node (SKey t) = None \<Longrightarrow> yl_search t nodes i cb = cb"
  by (induction nodes arbitrary: i cb) (auto split: prod.splits)

lemma yl_search_last:
  "map_of n (SKey t) \<noteq> None \<Longrightarrow> \<forall>node \<in> set ys. map_of node (SKey t) = None \<Longrightarrow>
   yl_search t (xs @ n # ys) i cb = (int (i + length xs), True)"
proof (induction xs arbitrary: i cb)
  case Nil
  then show ?case by (cases cb) (simp add: yl_search_none)
next
  case (Cons x xs)
  show ?case using Cons.IH[OF Cons.prems, of "Suc i"] by (cases cb) simp
qed

lemma yl_nodes_snoc_new:
  assumes "cell r (fs ! (DEPTH - 1)) \<notin> (\<lambda>r. cell r (fs ! (DEPTH - 1))) ` set R"
  shows "yl_nodes fs (R @ [r]) = yl_nodes fs R @ [yl_element fs (cell r (fs ! (DEPTH - 1))) [r]]"
proof -
  let ?f = "\<lambda>r. cell r (fs ! (DEPTH - 1))"
  have ne: "?f x \<noteq> ?f r" if "x \<in> set R" for x
    using assms that by (metis (no_types, lifting) image_eqI)
  have a: "filter (\<lambda>x. ?f x = ?f r) R = []" using ne by (simp add: filter_empty_conv)
  have b: "map (\<lambda>topic. yl_element fs topic (filter (\<lambda>x. ?f x = topic) (R @ [r]))) (first_occurrences (map ?f R))
         = map (\<lambda>topic. yl_element fs topic (filter (\<lambda>x. ?f x = topic) R)) (first_occurrences (map ?f R))"
    using assms by (intro map_cong) auto
  have fo: "first_occurrences (map ?f (R @ [r])) = first_occurrences (map ?f R) @ [?f r]"
    using assms by (simp add: first_occurrences_snoc)
  have c: "filter (\<lambda>x. ?f x = ?f r) (R @ [r]) = [r]" using a by simp
  show ?thesis unfolding yl_nodes_def fo unfolding map_append list.map b c by simp
qed

lemma yl_nodes_snoc_old:
  assumes "first_occurrences (map (\<lambda>r. cell r (fs ! (DEPTH - 1))) R) = ts1 @ cell r (fs ! (DEPTH - 1)) # ts2"
  shows "yl_nodes fs R = map (\<lambda>topic. yl_element fs topic (filter (\<lambda>x. cell x (fs ! (DEPTH - 1)) = topic) R)) ts1
              @ yl_element fs (cell r (fs ! (DEPTH - 1))) (filter (\<lambda>x. cell x (fs ! (DEPTH - 1)) = cell r (fs ! (DEPTH - 1))) R)
              # map (\<lambda>topic. yl_element fs topic (filter (\<lambda>x. cell x (fs ! (DEPTH - 1)) = topic) R)) ts2"
    and "yl_nodes fs (R @ [r]) = map (\<lambda>topic. yl_element fs topic (filter (\<lambda>x. cell x (fs ! (DEPTH - 1)) = topic) R)) ts1
              @ yl_element fs (cell r (fs ! (DEPTH - 1))) (filter (\<lambda>x. cell x (fs ! (DEPTH - 1)) = cell r (fs ! (DEPTH - 1))) R @ [r])
              # map (\<lambda>topic. yl_element fs topic (filter (\<lambda>x. cell x (fs ! (DEPTH - 1)) = topic) R)) ts2"
proof -
  let ?f = "\<lambda>r. cell r (fs ! (DEPTH - 1))"
  let ?t0 = "?f r"
  show "yl_nodes fs R = map (\<lambda>topic. yl_element fs topic (filter (\<lambda>x. ?f x = topic) R)) ts1
              @ yl_element fs ?t0 (filter (\<lambda>x. ?f x = ?t0) R)
              # map (\<lambda>topic. yl_element fs topic (filter (\<lambda>x. ?f x = topic) R)) ts2"
    unfolding yl_nodes_def assms by simp
  have d: "distinct (ts1 @ ?t0 # ts2)" using distinct_first_occurrences[of "map ?f R"] unfolding assms .
  have mem: "?t0 \<in> set (map ?f R)"
    using set_first_occurrences[of "map ?f R"] unfolding assms by auto
  have fo: "first_occurrences (map ?f (R @ [r])) = ts1 @ ?t0 # ts2"
    using mem assms by (simp add: first_occurrences_snoc)
  have m1: "map (\<lambda>topic. yl_element fs topic (filter (\<lambda>x. ?f x = topic) (R @ [r]))) ts1
          = map (\<lambda>topic. yl_element fs topic (filter (\<lambda>x. ?f x = topic) R)) ts1"
    using d by (intro map_cong) auto
  have m2: "map (\<lambda>topic. yl_element fs topic (filter (\<lambda>x. ?f x = topic) (R @ [r]))) ts2
          = map (\<lambda>topic. yl_element fs topic (filter (\<lambda>x. ?f x = topic) R)) ts2"
    using d by (intro map_cong) auto
  show "yl_nodes fs (R @ [r]) = map (\<lambda>topic. yl_element fs topic (filter (\<lambda>x. ?f x = topic) R)) ts1
              @ yl_element fs ?t0 (filter (\<lambda>x. ?f x = ?t0) R @ [r])
              # map (\<lambda>topic. yl_element fs topic (filter (\<lambda>x. ?f x = topic) R)) ts2"
    unfolding yl_nodes_def fo unfolding map_append list.map m1 m2 by simp
qed

lemma yl_nodes_step:
  assumes S: "yl_search (cell r (fs ! (DEPTH - 1))) (yl_nodes fs R) 0 (c1, False) = (cur2, ex)"
    and C: "\<not> ex \<and> nodes1 = yl_nodes fs R @ [[(SKey (cell r (fs ! (DEPTH - 1))), YDict [])]] \<and> pos = length (yl_nodes fs R)
        \<or> ex \<and> nodes1 = yl_nodes fs R \<and> py_pos (length (yl_nodes fs R)) cur2 = Inr pos"
    and Y: "yl_entry fs r (cell r (fs ! (DEPTH - 1))) (yl_entry_text fs r) (nodes1 ! pos) = Inr (node', dis)"
  shows "nodes1 ! pos = yl_element fs (cell r (fs ! (DEPTH - 1))) (filter (\<lambda>x. cell x (fs ! (DEPTH - 1)) = cell r (fs ! (DEPTH - 1))) R)
       \<and> nodes1[pos := node'] = yl_nodes fs (R @ [r])"
proof -
  let ?f = "\<lambda>r. cell r (fs ! (DEPTH - 1))"
  let ?t0 = "?f r"
  let ?F = "\<lambda>topic. yl_element fs topic (filter (\<lambda>x. ?f x = topic) R)"
  have nodes: "yl_nodes fs R = map ?F (first_occurrences (map ?f R))" by (simp add: yl_nodes_def)
  show ?thesis
  proof (cases "?t0 \<in> ?f ` set R")
    case False
    have "\<forall>node \<in> set (yl_nodes fs R). map_of node (SKey ?t0) = None"
      unfolding nodes using False by (auto simp: yl_element_key)
    from yl_search_none[OF this] S have ex: "\<not> ex" by simp
    with C have n1: "nodes1 = yl_nodes fs R @ [yl_element fs ?t0 []]" and pos: "pos = length (yl_nodes fs R)"
      by (simp_all add: yl_element_empty)
    have "?f x \<noteq> ?t0" if "x \<in> set R" for x
      using False that by (metis (no_types, lifting) image_eqI)
    then have none: "filter (\<lambda>x. ?f x = ?t0) R = []"
      by (simp add: filter_empty_conv)
    have at: "nodes1 ! pos = yl_element fs ?t0 []" unfolding n1 pos by simp
    from yl_entry_element[OF Y[unfolded this]] have "node' = yl_element fs ?t0 [r]" by simp
    then have "nodes1[pos := node'] = yl_nodes fs (R @ [r])"
      unfolding n1 pos yl_nodes_snoc_new[OF False] by simp
    with at none show ?thesis by simp
  next
    case True
    then have "?t0 \<in> set (first_occurrences (map ?f R))" by simp
    then obtain ts1 ts2 where fo: "first_occurrences (map ?f R) = ts1 @ ?t0 # ts2"
      by (meson split_list)
    have d: "distinct (ts1 @ ?t0 # ts2)" using distinct_first_occurrences[of "map ?f R"] unfolding fo .
    note old = yl_nodes_snoc_old[OF fo]
    have eq: "yl_nodes fs R = map ?F ts1 @ ?F ?t0 # map ?F ts2" using old(1) .
    have a: "map_of (?F ?t0) (SKey ?t0) \<noteq> None" by (simp add: yl_element_key)
    have b: "\<forall>node \<in> set (map ?F ts2). map_of node (SKey ?t0) = None"
      using d by (auto simp: yl_element_key)
    from yl_search_last[OF a b, of "map ?F ts1" 0 "(c1, False)"] S
    have ex: "ex" and cur2: "cur2 = int (length ts1)" unfolding eq by simp_all
    with C have n1: "nodes1 = yl_nodes fs R" and P: "py_pos (length (yl_nodes fs R)) (int (length ts1)) = Inr pos"
      by simp_all
    have pos: "pos = length ts1" using py_pos_Inr[OF P] by simp
    have at: "nodes1 ! pos = ?F ?t0" unfolding n1 pos eq by (simp add: nth_append)
    from yl_entry_element[OF Y[unfolded this]]
    have node': "node' = yl_element fs ?t0 (filter (\<lambda>x. ?f x = ?t0) R @ [r])" by simp
    have "nodes1[pos := node'] = map ?F ts1 @ node' # map ?F ts2"
      unfolding n1 pos eq by (simp add: list_update_append)
    then have "nodes1[pos := node'] = yl_nodes fs (R @ [r])" unfolding old(2) node' .
    with at show ?thesis by simp
  qed
qed

lemma keys_dict_set_set: "fst ` set (dict_set k v m) = insert k (fst ` set m)"
proof -
  have "set (map fst (dict_set k v m)) = insert k (set (map fst m))"
    by (auto simp: keys_dict_set map_of_eq_None_iff)
  then show ?thesis by (simp only: set_map)
qed

lemma yl_wf_dict_set_str:
  assumes "yl_wf m"
  shows "yl_wf (dict_set (SKey k) (YStr s) m)"
proof -
  from assms have dm: "distinct (map fst m)"
    and old: "\<And>k v. (k, v) \<in> set m \<Longrightarrow> (\<exists>a. k = SKey a)
          \<and> (\<forall>d. v = YDict d \<longrightarrow> distinct (map fst d) \<and> (\<forall>k' \<in> fst ` set d. \<exists>b. k' = SKey b))"
    unfolding yl_wf_def by blast+
  have new: "(\<exists>a. k' = SKey a)
          \<and> (\<forall>d. v = YDict d \<longrightarrow> distinct (map fst d) \<and> (\<forall>k' \<in> fst ` set d. \<exists>b. k' = SKey b))"
    if "(k', v) \<in> set (dict_set (SKey k) (YStr s) m)" for k' v
  proof -
    from that set_dict_set[of "SKey k" "YStr s" m]
    have "(k', v) = (SKey k, YStr s) \<or> (k', v) \<in> set m" by blast
    then show ?thesis
    proof
      assume "(k', v) = (SKey k, YStr s)"
      then show ?thesis by simp
    next
      assume "(k', v) \<in> set m"
      then show ?thesis by (rule old)
    qed
  qed
  have "distinct (map fst (dict_set (SKey k) (YStr s) m))"
    using dm by (rule distinct_dict_set)
  with new show ?thesis unfolding yl_wf_def by blast
qed

lemma yl_wf_report: "yl_wf track \<Longrightarrow> yl_wf (yl_report yld track)"
  by (induction yld track rule: yl_report.induct) (auto simp: yl_wf_dict_set_str)

lemma yl_wf_lookup:
  assumes "yl_wf m" "(k, YDict d) \<in> set m" "(k', YList nodes) \<in> set d"
  shows "\<exists>a b. k = SKey a \<and> k' = SKey b \<and> yl_list_at (YDict m) a b = Some nodes"
proof -
  from assms(1,2) obtain a where a: "k = SKey a" and dd: "distinct (map fst d)"
      and kd: "\<forall>k' \<in> fst ` set d. \<exists>b. k' = SKey b" and dm: "distinct (map fst m)"
    unfolding yl_wf_def by blast
  from kd assms(3) obtain b where b: "k' = SKey b" by force
  have "map_of m (SKey a) = Some (YDict d)" using dm assms(2) a by (simp add: map_of_is_SomeI)
  moreover have "map_of d (SKey b) = Some (YList nodes)" using dd assms(3) b by (simp add: map_of_is_SomeI)
  ultimately show ?thesis using a b by simp
qed

lemma yl_list_at_step:
  assumes "map_of m (SKey a0) = None \<and> track1 = [] \<or> map_of m (SKey a0) = Some (YDict track1)"
  shows "yl_list_at (YDict (dict_set (SKey a0) (YDict (dict_set (SKey b0) (YList new) track1)) m)) a b
       = (if a = a0 \<and> b = b0 then Some new else yl_list_at (YDict m) a b)"
  using assms by (auto simp: map_of_dict_set)

lemma yl_wf_step:
  assumes "yl_wf m"
    and "map_of m (SKey a0) = None \<and> track1 = [] \<or> map_of m (SKey a0) = Some (YDict track1)"
  shows "yl_wf (dict_set (SKey a0) (YDict (dict_set (SKey b0) v track1)) m)"
proof -
  from assms(1) have dm: "distinct (map fst m)"
    and old: "\<And>k v. (k, v) \<in> set m \<Longrightarrow> (\<exists>a. k = SKey a)
          \<and> (\<forall>d. v = YDict d \<longrightarrow> distinct (map fst d) \<and> (\<forall>k' \<in> fst ` set d. \<exists>b. k' = SKey b))"
    unfolding yl_wf_def by blast+
  have t1: "distinct (map fst track1) \<and> (\<forall>k' \<in> fst ` set track1. \<exists>b. k' = SKey b)"
  proof (cases "map_of m (SKey a0)")
    case None
    with assms(2) show ?thesis by simp
  next
    case (Some x)
    with assms(2) have "(SKey a0, YDict track1) \<in> set m" by (auto dest: map_of_SomeD)
    from old[OF this] show ?thesis by simp
  qed
  let ?d = "dict_set (SKey b0) v track1"
  have d: "distinct (map fst ?d) \<and> (\<forall>k' \<in> fst ` set ?d. \<exists>b. k' = SKey b)"
    using t1 by (simp add: distinct_dict_set keys_dict_set_set)
  have new: "(\<exists>a. k' = SKey a)
          \<and> (\<forall>d. v' = YDict d \<longrightarrow> distinct (map fst d) \<and> (\<forall>k' \<in> fst ` set d. \<exists>b. k' = SKey b))"
    if "(k', v') \<in> set (dict_set (SKey a0) (YDict ?d) m)" for k' v'
  proof -
    from that set_dict_set[of "SKey a0" "YDict ?d" m]
    have "(k', v') = (SKey a0, YDict ?d) \<or> (k', v') \<in> set m" by blast
    then show ?thesis
    proof
      assume "(k', v') = (SKey a0, YDict ?d)"
      then show ?thesis using d by simp
    next
      assume "(k', v') \<in> set m"
      then show ?thesis by (rule old)
    qed
  qed
  have "distinct (map fst (dict_set (SKey a0) (YDict ?d) m))"
    using dm by (rule distinct_dict_set)
  with new show ?thesis unfolding yl_wf_def by blast
qed

lemma yl_nodes_empty [simp]: "yl_nodes fs [] = []"
  by (simp add: yl_nodes_def)

lemma yl_nodes_Nil: "yl_nodes fs R = [] \<longleftrightarrow> R = []"
  by (cases R) (simp_all add: yl_nodes_def)

lemma yl_rows_at_snoc:
  "yl_rows_at fs a b (seen @ [r]) =
     yl_rows_at fs a b seen @ (if a = cell r (fs ! 0) \<and> b = cell r (fs ! 1) then [r] else [])"
  by (auto simp: yl_rows_at_def)

lemma yl_row_inv:
  assumes "yl_row fs r st = Inr st'" "yl_inv fs seen (yl_output st)"
  shows "yl_inv fs (seen @ [r]) (yl_output st')
       \<and> yl_entry fs r (cell r (fs ! (DEPTH - 1))) (yl_entry_text fs r)
             (yl_element fs (cell r (fs ! (DEPTH - 1))) (yl_own fs r seen))
           = Inr (yl_element fs (cell r (fs ! (DEPTH - 1))) (yl_own fs r seen @ [r]),
                  length (yl_element fs (cell r (fs ! (DEPTH - 1))) (yl_own fs r seen)))"
proof -
  let ?a0 = "cell r (fs ! 0)" and ?b0 = "cell r (fs ! 1)" and ?t0 = "cell r (fs ! (DEPTH - 1))"
  let ?m = "yl_output st"
  from yl_row_step[OF assms(1)] obtain track1 nodes nodes1 pos node' dis c1 cur2 ex where
      A: "map_of ?m (SKey ?a0) = None \<and> track1 = [] \<or> map_of ?m (SKey ?a0) = Some (YDict track1)"
    and B: "map_of track1 (SKey ?b0) = None \<and> nodes = [] \<or> map_of track1 (SKey ?b0) = Some (YList nodes)"
    and S: "yl_search ?t0 nodes 0 (c1, False) = (cur2, ex)"
    and C: "\<not> ex \<and> nodes1 = nodes @ [[(SKey ?t0, YDict [])]] \<and> pos = length nodes
        \<or> ex \<and> nodes1 = nodes \<and> py_pos (length nodes) cur2 = Inr pos"
    and Y: "yl_entry fs r ?t0 (yl_entry_text fs r) (nodes1 ! pos) = Inr (node', dis)"
    and R: "yl_output st' = dict_set (SKey ?a0)
              (YDict (dict_set (SKey ?b0) (YList (nodes1[pos := node'])) track1)) ?m"
    by blast
  from assms(2) have wf: "yl_wf ?m"
    and J: "\<And>a b. yl_list_at (YDict ?m) a b =
           (if yl_rows_at fs a b seen = [] then None else Some (yl_nodes fs (yl_rows_at fs a b seen)))"
    unfolding yl_inv_def by blast+
  let ?R = "yl_rows_at fs ?a0 ?b0 seen"
  have at: "yl_list_at (YDict ?m) ?a0 ?b0 = (if map_of track1 (SKey ?b0) = None then None else Some nodes)"
    using A B by auto
  have nodes: "nodes = yl_nodes fs ?R"
  proof (cases "map_of track1 (SKey ?b0)")
    case None
    with at J[of ?a0 ?b0] B show ?thesis by (auto split: if_splits)
  next
    case (Some x)
    with at J[of ?a0 ?b0] B show ?thesis by (auto split: if_splits)
  qed
  from yl_nodes_step[OF S[unfolded nodes] C[unfolded nodes] Y]
  have found: "nodes1 ! pos = yl_element fs ?t0 (yl_own fs r seen)"
    and new: "nodes1[pos := node'] = yl_nodes fs (?R @ [r])"
    unfolding yl_own_def yl_records_def by blast+
  from yl_entry_element[OF Y[unfolded found]]
  have call: "yl_entry fs r ?t0 (yl_entry_text fs r) (yl_element fs ?t0 (yl_own fs r seen))
           = Inr (yl_element fs ?t0 (yl_own fs r seen @ [r]), length (yl_element fs ?t0 (yl_own fs r seen)))"
    using Y[unfolded found] by simp
  have wf': "yl_wf (yl_output st')" unfolding R using wf A by (rule yl_wf_step)
  have "yl_list_at (YDict (yl_output st')) a b =
           (if yl_rows_at fs a b (seen @ [r]) = [] then None
            else Some (yl_nodes fs (yl_rows_at fs a b (seen @ [r]))))" for a b
    unfolding R yl_list_at_step[OF A] new yl_rows_at_snoc J by simp
  with wf' have "yl_inv fs (seen @ [r]) (yl_output st')" unfolding yl_inv_def by blast
  with call show ?thesis by blast
qed

lemma yl_rows_inv:
  assumes "yl_rows fs rs st = Inr st'" "yl_inv fs seen (yl_output st)"
  shows "yl_inv fs (seen @ rs) (yl_output st')"
  using assms
proof (induction rs arbitrary: st seen)
  case Nil
  then show ?case by simp
next
  case (Cons r rs)
  from Cons.prems(1) obtain st1 where
    st1: "yl_row fs r st = Inr st1" and rest: "yl_rows fs rs st1 = Inr st'"
    by (auto dest!: bind_err_Inr)
  from Cons.IH[OF rest yl_row_inv[OF st1 Cons.prems(2), THEN conjunct1]] show ?case by simp
qed

lemma yl_rows_append:
  "yl_rows fs (xs @ ys) st = Inr st' \<Longrightarrow> \<exists>st1. yl_rows fs xs st = Inr st1 \<and> yl_rows fs ys st1 = Inr st'"
proof (induction xs arbitrary: st)
  case Nil
  then show ?case by simp
next
  case (Cons x xs)
  from Cons.prems obtain s1 where s1: "yl_row fs x st = Inr s1" and rest: "yl_rows fs (xs @ ys) s1 = Inr st'"
    by (auto dest!: bind_err_Inr)
  from Cons.IH[OF rest] s1 show ?case by auto
qed

lemma yl_summary_dom:
  assumes "yl_summary subtopic year_level yld = Inr yld'"
  shows "fst ` set yld' = insert ''All levels'' (insert subtopic (fst ` set yld))"
proof -
  let ?tok = "''Y'' @ year_level"
  let ?yld1 = "if map_of yld subtopic = None then dict_set subtopic [] yld else yld"
  from assms obtain s where s: "dict_get ?yld1 subtopic = Inr s"
    by (auto simp: yl_summary_def Let_def dest!: bind_err_Inr)
  let ?yld2 = "dict_set subtopic (set_add ?tok s) ?yld1"
  from assms s obtain a where a: "dict_get ?yld2 ''All levels'' = Inr a"
      and r: "yld' = dict_set ''All levels'' (set_add ?tok a) ?yld2"
    by (auto simp: yl_summary_def Let_def dest!: bind_err_Inr)
  show ?thesis unfolding r by (auto simp: keys_dict_set_set)
qed

lemma yl_rows_keys:
  assumes "yl_rows fs rs st = Inr st'" "''All levels'' \<in> fst ` set (yl_dict st)"
  shows "fst ` set (yl_dict st') = fst ` set (yl_dict st) \<union> (\<lambda>r. cell r (fs ! 1)) ` set rs"
  using assms
proof (induction rs arbitrary: st)
  case Nil
  then show ?case by simp
next
  case (Cons r rs)
  from Cons.prems(1) obtain st1 where
    st1: "yl_row fs r st = Inr st1" and rest: "yl_rows fs rs st1 = Inr st'"
    by (auto dest!: bind_err_Inr)
  from yl_row_step[OF st1] have "yl_summary (cell r (fs ! 1)) (cell r (last fs)) (yl_dict st) = Inr (yl_dict st1)"
    by blast
  from yl_summary_dom[OF this] Cons.prems(2)
  have k: "fst ` set (yl_dict st1) = insert (cell r (fs ! 1)) (fst ` set (yl_dict st))" by auto
  then have "''All levels'' \<in> fst ` set (yl_dict st1)" using Cons.prems(2) by simp
  from Cons.IH[OF rest this] k show ?case by auto
qed

lemma yl_inv_init: "yl_inv fs [] (yl_output yl_init)"
  by (simp add: yl_inv_def yl_wf_def yl_init_def yl_rows_at_def)

lemma yl_run:
  assumes "construct_with_yl data = Inr out"
  shows "\<exists>st. yl_rows (fieldnames data) (rows data) yl_init = Inr st
            \<and> out = YDict (yl_report (yl_dict st) (yl_output st))
            \<and> yl_inv (fieldnames data) (rows data) (yl_output st)
            \<and> fst ` set (yl_dict st) = yl_summary_keys data
            \<and> distinct (map fst (yl_dict st))"
proof -
  from assms obtain st where run: "yl_rows (fieldnames data) (rows data) yl_init = Inr st"
      and out: "out = YDict (yl_report (yl_dict st) (yl_output st))"
    by (auto simp: construct_with_yl_def dest!: bind_err_Inr)
  have inv: "yl_inv (fieldnames data) (rows data) (yl_output st)"
    using yl_rows_inv[OF run yl_inv_init] by simp
  have "''All levels'' \<in> fst ` set (yl_dict yl_init)" by (simp add: yl_init_def)
  from yl_rows_keys[OF run this]
  have keys: "fst ` set (yl_dict st) = yl_summary_keys data"
    by (simp add: yl_summary_keys_def yl_init_def)
  have "yl_sets_ok (yl_dict yl_init)" by (simp add: yl_sets_ok_def yl_init_def)
  from yl_rows_all_levels[OF run this] have "distinct (map fst (yl_dict st))"
    by (simp add: yl_sets_ok_def)
  with run out inv keys show ?thesis by blast
qed

lemma yl_output_lists:
  assumes "construct_with_yl data = Inr out" "a \<notin> yl_summary_keys data"
  shows "yl_list_at out a b =
           (if yl_rows_at (fieldnames data) a b (rows data) = [] then None
            else Some (yl_nodes (fieldnames data) (yl_rows_at (fieldnames data) a b (rows data))))"
proof -
  from yl_run[OF assms(1)] obtain st :: yl_state where
      out: "out = YDict (yl_report (yl_dict st) (yl_output st))"
    and inv: "yl_inv (fieldnames data) (rows data) (yl_output st)"
    and keys: "fst ` set (yl_dict st) = yl_summary_keys data"
    by blast
  have "map_of (yl_report (yl_dict st) (yl_output st)) (SKey a) = map_of (yl_output st) (SKey a)"
    using assms(2) keys by (intro yl_report_other) simp
  then have "yl_list_at out a b = yl_list_at (YDict (yl_output st)) a b"
    unfolding out by simp
  with inv show ?thesis unfolding yl_inv_def by simp
qed

lemma yl_nodes_mem:
  "node \<in> set (yl_nodes fs R) \<longleftrightarrow>
     (\<exists>t. filter (\<lambda>r. cell r (fs ! (DEPTH - 1)) = t) R \<noteq> []
          \<and> node = yl_element fs t (filter (\<lambda>r. cell r (fs ! (DEPTH - 1)) = t) R))"
proof -
  have "filter (\<lambda>r. cell r (fs ! (DEPTH - 1)) = t) R \<noteq> [] \<longleftrightarrow> t \<in> (\<lambda>r. cell r (fs ! (DEPTH - 1))) ` set R" for t
    by (auto simp: filter_empty_conv)
  then show ?thesis unfolding yl_nodes_def by auto
qed

lemma yl_output_exact:
  assumes "construct_with_yl data = Inr out" "node \<in> set (yl_elements out)"
  shows "\<exists>a b t. yl_records (fieldnames data) a b t (rows data) \<noteq> []
            \<and> node = yl_element (fieldnames data) t (yl_records (fieldnames data) a b t (rows data))"
proof -
  let ?fs = "fieldnames data"
  from yl_run[OF assms(1)] obtain st :: yl_state where
      out: "out = YDict (yl_report (yl_dict st) (yl_output st))"
    and inv: "yl_inv ?fs (rows data) (yl_output st)"
    and keys: "fst ` set (yl_dict st) = yl_summary_keys data"
    and dk: "distinct (map fst (yl_dict st))"
    by blast
  let ?m = "yl_report (yl_dict st) (yl_output st)"
  from inv have "yl_wf (yl_output st)" unfolding yl_inv_def by blast
  then have wf: "yl_wf ?m" by (rule yl_wf_report)
  from assms(2) obtain k d k' nodes where
      kd: "(k, YDict d) \<in> set ?m" and kn: "(k', YList nodes) \<in> set d" and n: "node \<in> set nodes"
    unfolding out by (auto simp: set_yl_first set_yl_second)
  from yl_wf_lookup[OF wf kd kn] obtain a b where
      k: "k = SKey a" and at: "yl_list_at (YDict ?m) a b = Some nodes"
    by blast
  have "a \<notin> yl_summary_keys data"
  proof
    assume "a \<in> yl_summary_keys data"
    then have "a \<in> fst ` set (yl_dict st)" using keys by simp
    then obtain v where "map_of (yl_dict st) a = Some v"
      by (metis map_of_eq_None_iff not_Some_eq)
    from yl_report_key[OF dk this, of "yl_output st"] at show False by simp
  qed
  from yl_output_lists[OF assms(1) this, of b] at
  have "nodes = yl_nodes ?fs (yl_rows_at ?fs a b (rows data))"
    unfolding out by (simp split: if_splits)
  with n have "node \<in> set (yl_nodes ?fs (yl_rows_at ?fs a b (rows data)))" by simp
  then show ?thesis unfolding yl_nodes_mem yl_records_def by blast
qed

lemma yl_own_self: "yl_own fs r (xs @ r # ys) = yl_own fs r xs @ r # yl_own fs r ys"
  by (simp add: yl_own_def yl_records_def yl_rows_at_def)

lemma yl_own_snoc: "yl_own fs r (xs @ [r]) = yl_own fs r xs @ [r]"
  by (simp add: yl_own_def yl_records_def yl_rows_at_def)

lemma yl_record_entry:
  assumes "construct_with_yl data = Inr out" "j < length (rows data)"
  shows "yl_entry (fieldnames data) (rows data ! j) (cell (rows data ! j) (fieldnames data ! (DEPTH - 1)))
             (yl_entry_text (fieldnames data) (rows data ! j)) (yl_elem_upto data j j)
           = Inr (yl_elem_upto data j (Suc j), length (yl_elem_upto data j j))"
    and "yl_elem_upto data j (length (rows data)) ! length (yl_elem_upto data j j)
           = (IKey (length (yl_elem_upto data j j)), YStr (yl_entry_text (fieldnames data) (rows data ! j)))"
    and "cell (rows data ! j) (fieldnames data ! 0) \<notin> yl_summary_keys data \<Longrightarrow>
           \<exists>nodes. yl_list_at out (cell (rows data ! j) (fieldnames data ! 0)) (cell (rows data ! j) (fieldnames data ! 1)) = Some nodes
                 \<and> yl_elem_upto data j (length (rows data)) \<in> set nodes"
proof -
  let ?fs = "fieldnames data" and ?r = "rows data ! j"
  let ?t = "cell ?r (?fs ! (DEPTH - 1))"
  from yl_run[OF assms(1)] obtain st where
      run: "yl_rows ?fs (rows data) yl_init = Inr st" by blast
  have split: "rows data = take j (rows data) @ ?r # drop (Suc j) (rows data)"
    using assms(2) by (rule id_take_nth_drop)
  from run obtain st1 where
      pre: "yl_rows ?fs (take j (rows data)) yl_init = Inr st1"
    and suf: "yl_rows ?fs (?r # drop (Suc j) (rows data)) st1 = Inr st"
    using yl_rows_append[of ?fs "take j (rows data)" "?r # drop (Suc j) (rows data)" yl_init st]
    unfolding split[symmetric] by blast
  from suf obtain st2 where row: "yl_row ?fs ?r st1 = Inr st2" by (auto dest!: bind_err_Inr)
  have inv1: "yl_inv ?fs (take j (rows data)) (yl_output st1)"
    using yl_rows_inv[OF pre yl_inv_init] by simp
  have suc: "take (Suc j) (rows data) = take j (rows data) @ [?r]"
    using assms(2) by (rule take_Suc_conv_app_nth)
  show "yl_entry ?fs ?r ?t (yl_entry_text ?fs ?r) (yl_elem_upto data j j)
           = Inr (yl_elem_upto data j (Suc j), length (yl_elem_upto data j j))"
    using yl_row_inv[OF row inv1, THEN conjunct2]
    unfolding yl_elem_upto_def Let_def suc yl_own_snoc .
  have own: "yl_own ?fs ?r (rows data)
           = yl_own ?fs ?r (take j (rows data)) @ ?r # yl_own ?fs ?r (drop (Suc j) (rows data))"
    using yl_own_self[of ?fs ?r "take j (rows data)" "drop (Suc j) (rows data)"]
    unfolding split[symmetric] .
  show "yl_elem_upto data j (length (rows data)) ! length (yl_elem_upto data j j)
           = (IKey (length (yl_elem_upto data j j)), YStr (yl_entry_text ?fs ?r))"
    unfolding yl_elem_upto_def Let_def take_all[OF order_refl] own
    using yl_numbered_nth[of 1 "map (yl_entry_text ?fs) (yl_own ?fs ?r (take j (rows data)))"
        "yl_entry_text ?fs ?r" "map (yl_entry_text ?fs) (yl_own ?fs ?r (drop (Suc j) (rows data)))"]
    by (simp add: yl_element_def)
  assume free: "cell ?r (?fs ! 0) \<notin> yl_summary_keys data"
  let ?R = "yl_rows_at ?fs (cell ?r (?fs ! 0)) (cell ?r (?fs ! 1)) (rows data)"
  have mem: "?r \<in> set (rows data)" using assms(2) by simp
  then have rR: "?r \<in> set ?R" by (simp add: yl_rows_at_def)
  then have ne: "?R \<noteq> []" by auto
  have "?r \<in> set (filter (\<lambda>x. cell x (?fs ! (DEPTH - 1)) = ?t) ?R)" using rR by simp
  then have "filter (\<lambda>x. cell x (?fs ! (DEPTH - 1)) = ?t) ?R \<noteq> []" by (metis empty_iff empty_set)
  then have "yl_elem_upto data j (length (rows data)) \<in> set (yl_nodes ?fs ?R)"
    unfolding yl_nodes_mem yl_elem_upto_def Let_def take_all[OF order_refl] yl_own_def yl_records_def
    by blast
  with yl_output_lists[OF assms(1) free] ne
  show "\<exists>nodes. yl_list_at out (cell ?r (?fs ! 0)) (cell ?r (?fs ! 1)) = Some nodes
                 \<and> yl_elem_upto data j (length (rows data)) \<in> set nodes"
    by simp
qed

lemma yl_prefix_returns:
  assumes "construct_with_yl data = Inr out"
  shows "\<exists>out'. construct_with_yl (data\<lparr>rows := take j (rows data)\<rparr>) = Inr out'"
proof -
  from yl_run[OF assms] obtain st :: yl_state where
      run: "yl_rows (fieldnames data) (rows data) yl_init = Inr st" by blast
  from yl_rows_append[of "fieldnames data" "take j (rows data)" "drop j (rows data)" yl_init st] run
  obtain st1 where "yl_rows (fieldnames data) (take j (rows data)) yl_init = Inr st1" by auto
  then show ?thesis by (simp add: construct_with_yl_def)
qed

lemma ex_data_cells:
  "cell (ex_row [a, b, c, d, e, f]) ''A'' = a"
  "cell (ex_row [a, b, c, d, e, f]) ''B'' = b"
  "cell (ex_row [a, b, c, d, e, f]) ''D'' = d"
  "cell (ex_row [a, b, c, d, e, f]) ''E'' = e"
  "cell (ex_row [a, b, c, d, e, f]) ''F'' = f"
  by (simp_all add: cell_def ex_row_def ex_header_def)

lemma ex_data_elems:
  "yl_elem_upto ex_data 2 2 = [(SKey ''q'', YDict [(SKey ''t1'', YStr ''1'')]), (IKey 1, YStr ''Y7 t1'')]"
  "yl_elem_upto ex_data 2 3 = [(SKey ''q'', YDict [(SKey ''t1'', YStr ''1''), (SKey ''t2'', YStr ''2'')]),
                               (IKey 1, YStr ''Y7 t1''), (IKey 2, YStr ''Y7 t2'')]"
  by (simp_all add: yl_elem_upto_def yl_element_def yl_own_def yl_records_def yl_rows_at_def
      yl_index_map_def yl_entry_text_def ex_data_def ex_data_cells DEPTH_def Let_def
      str_nat.simps digit_char_def ex_header_def)

lemma ex_data_nodes:
  "yl_nodes (fieldnames ex_data) (yl_rows_at (fieldnames ex_data) ''x'' ''y'' (rows ex_data)) =
     [[(SKey ''q'', YDict [(SKey ''t1'', YStr ''1''), (SKey ''t2'', YStr ''2'')]),
       (IKey 1, YStr ''Y7 t1''), (IKey 2, YStr ''Y7 t2'')],
      [(SKey ''r'', YDict [(SKey ''t2'', YStr ''1'')]), (IKey 1, YStr ''Y10 t2'')]]"
  by (simp add: yl_nodes_def yl_element_def yl_rows_at_def
      yl_index_map_def yl_entry_text_def ex_data_def ex_data_cells DEPTH_def Let_def
      str_nat.simps digit_char_def ex_header_def)

lemma ex_data_free: "''x'' \<notin> yl_summary_keys ex_data"
  by (simp add: yl_summary_keys_def ex_data_def ex_data_cells ex_header_def)

text \<open>
  C2 (as the code has it).  Let \<^verbatim>\<open>construct_with_yl\<close> return \<open>out\<close>.

  \<^item> Every element of a second-level list of \<open>out\<close> has the topic key first and then string
    values under the integer keys \<open>1, 2, \<dots>\<close>, at least one of them, so it has two keys or
    more.  It is exactly \<open>yl_element\<close> of a topic and of the records of that topic (with
    the same first two columns), of which there is at least one: the topic key maps to the
    inner dict, which maps column values to strings of display indices and contains no entry;
    the entries stand beside the topic key, in the element itself, one for each record in row
    order.

  \<^item> Where the summary does not overwrite the first-column key \<open>a\<close>, the list \<^verbatim>\<open>out[a][b]\<close>
    is there exactly when some row has \<open>a\<close> and \<open>b\<close> in its first two columns, and it is
    \<open>yl_nodes\<close> of these rows: no record is left out.

  \<^item> For each record, number \<open>j\<close>: the builder also returns on the first \<open>j\<close> records; the
    insertion that the loop makes for the record, on the element as these records leave it,
    returns the element with the record added and \<^verbatim>\<open>dis_idx\<close>, which is the size of that
    element dict (not of the inner dict) at that moment; the element of the result holds the
    entry of the record under the integer key \<^verbatim>\<open>dis_idx\<close>; and this element is in the list
    \<^verbatim>\<open>out[a][b]\<close> of the record unless the summary overwrote \<open>a\<close>.
\<close>

theorem yl_elements_hold_entries:
  assumes "construct_with_yl data = Inr out"
  shows "(\<forall>node \<in> set (yl_elements out).
            elem_form node
          \<and> (\<exists>a b t. yl_records (fieldnames data) a b t (rows data) \<noteq> []
                \<and> node = yl_element (fieldnames data) t (yl_records (fieldnames data) a b t (rows data))))
       \<and> (\<forall>a b. a \<notin> yl_summary_keys data \<longrightarrow>
            yl_list_at out a b =
              (if yl_rows_at (fieldnames data) a b (rows data) = [] then None
               else Some (yl_nodes (fieldnames data) (yl_rows_at (fieldnames data) a b (rows data)))))
       \<and> (\<forall>j < length (rows data).
            (\<exists>out'. construct_with_yl (data\<lparr>rows := take j (rows data)\<rparr>) = Inr out')
          \<and> yl_entry (fieldnames data) (rows data ! j) (cell (rows data ! j) (fieldnames data ! (DEPTH - 1)))
                (yl_entry_text (fieldnames data) (rows data ! j)) (yl_elem_upto data j j)
              = Inr (yl_elem_upto data j (Suc j), length (yl_elem_upto data j j))
          \<and> yl_elem_upto data j (length (rows data)) ! length (yl_elem_upto data j j)
              = (IKey (length (yl_elem_upto data j j)), YStr (yl_entry_text (fieldnames data) (rows data ! j)))
          \<and> (cell (rows data ! j) (fieldnames data ! 0) \<notin> yl_summary_keys data \<longrightarrow>
               (\<exists>nodes. yl_list_at out (cell (rows data ! j) (fieldnames data ! 0))
                           (cell (rows data ! j) (fieldnames data ! 1)) = Some nodes
                      \<and> yl_elem_upto data j (length (rows data)) \<in> set nodes)))"
proof (intro conjI ballI allI impI)
  fix node assume n: "node \<in> set (yl_elements out)"
  show "elem_form node" using yl_output_elements[OF assms] n by blast
  show "\<exists>a b t. yl_records (fieldnames data) a b t (rows data) \<noteq> []
                \<and> node = yl_element (fieldnames data) t (yl_records (fieldnames data) a b t (rows data))"
    using yl_output_exact[OF assms n] .
next
  fix a b assume "a \<notin> yl_summary_keys data"
  then show "yl_list_at out a b =
              (if yl_rows_at (fieldnames data) a b (rows data) = [] then None
               else Some (yl_nodes (fieldnames data) (yl_rows_at (fieldnames data) a b (rows data))))"
    by (rule yl_output_lists[OF assms])
next
  fix j assume j: "j < length (rows data)"
  show "\<exists>out'. construct_with_yl (data\<lparr>rows := take j (rows data)\<rparr>) = Inr out'"
    using assms by (rule yl_prefix_returns)
  show "yl_entry (fieldnames data) (rows data ! j) (cell (rows data ! j) (fieldnames data ! (DEPTH - 1)))
                (yl_entry_text (fieldnames data) (rows data ! j)) (yl_elem_upto data j j)
              = Inr (yl_elem_upto data j (Suc j), length (yl_elem_upto data j j))"
    using assms j by (rule yl_record_entry(1))
  show "yl_elem_upto data j (length (rows data)) ! length (yl_elem_upto data j j)
              = (IKey (length (yl_elem_upto data j j)), YStr (yl_entry_text (fieldnames data) (rows data ! j)))"
    using assms j by (rule yl_record_entry(2))
  assume "cell (rows data ! j) (fieldnames data ! 0) \<notin> yl_summary_keys data"
  with assms j show "\<exists>nodes. yl_list_at out (cell (rows data ! j) (fieldnames data ! 0))
                           (cell (rows data ! j) (fieldnames data ! 1)) = Some nodes
                      \<and> yl_elem_upto data j (length (rows data)) \<in> set nodes"
    by (rule yl_record_entry(3))
qed

theorem yl_elements_hold_entries_witness:
  "construct_with_yl ex_data = Inr (YDict
       [(SKey ''x'',
         YDict
          [(SKey ''y'',
            YList
             [[(SKey ''q'',
                YDict
                 [(SKey ''t1'', YStr ''1''), (SKey ''t2'', YStr ''2'')]),
               (IKey 1, YStr ''Y7 t1''), (IKey 2, YStr ''Y7 t2'')],
              [(SKey ''r'', YDict [(SKey ''t2'', YStr ''1'')]),
               (IKey 1, YStr ''Y10 t2'')]])]),
        (SKey ''All levels'', YStr ''Y10 Y7''),
        (SKey ''y'', YStr ''Y10 Y7'')])
   \<and> yl_list_at (YDict
       [(SKey ''x'',
         YDict
          [(SKey ''y'',
            YList
             [[(SKey ''q'',
                YDict
                 [(SKey ''t1'', YStr ''1''), (SKey ''t2'', YStr ''2'')]),
               (IKey 1, YStr ''Y7 t1''), (IKey 2, YStr ''Y7 t2'')],
              [(SKey ''r'', YDict [(SKey ''t2'', YStr ''1'')]),
               (IKey 1, YStr ''Y10 t2'')]])]),
        (SKey ''All levels'', YStr ''Y10 Y7''),
        (SKey ''y'', YStr ''Y10 Y7'')]) ''x'' ''y''
      = Some [[(SKey ''q'', YDict [(SKey ''t1'', YStr ''1''), (SKey ''t2'', YStr ''2'')]),
               (IKey 1, YStr ''Y7 t1''), (IKey 2, YStr ''Y7 t2'')],
              [(SKey ''r'', YDict [(SKey ''t2'', YStr ''1'')]), (IKey 1, YStr ''Y10 t2'')]]
   \<and> yl_entry ex_header (ex_row [''x'', ''y'', ''p'', ''q'', ''t2'', ''7'']) ''q'' ''Y7 t2''
        [(SKey ''q'', YDict [(SKey ''t1'', YStr ''1'')]), (IKey 1, YStr ''Y7 t1'')]
      = Inr ([(SKey ''q'', YDict [(SKey ''t1'', YStr ''1''), (SKey ''t2'', YStr ''2'')]),
              (IKey 1, YStr ''Y7 t1''), (IKey 2, YStr ''Y7 t2'')], 2)
   \<and> [(SKey ''q'', YDict [(SKey ''t1'', YStr ''1''), (SKey ''t2'', YStr ''2'')]),
       (IKey 1, YStr ''Y7 t1''), (IKey 2, YStr ''Y7 t2'')] ! 2 = (IKey 2, YStr ''Y7 t2'')
   \<and> elem_form [(SKey ''q'', YDict [(SKey ''t1'', YStr ''1''), (SKey ''t2'', YStr ''2'')]),
       (IKey 1, YStr ''Y7 t1''), (IKey 2, YStr ''Y7 t2'')]"
proof -
  note inst = yl_elements_hold_entries[OF ex_data_yl]
  have len: "(2::nat) < length (rows ex_data)" "length (rows ex_data) = 3" by (simp_all add: ex_data_def)
  have r2: "rows ex_data ! 2 = ex_row [''x'', ''y'', ''p'', ''q'', ''t2'', ''7'']"
    "fieldnames ex_data = ex_header" by (simp_all add: ex_data_def)
  have t: "cell (ex_row [''x'', ''y'', ''p'', ''q'', ''t2'', ''7'']) (ex_header ! (DEPTH - 1)) = ''q''"
    "yl_entry_text ex_header (ex_row [''x'', ''y'', ''p'', ''q'', ''t2'', ''7'']) = ''Y7 t2''"
    by (simp_all add: ex_data_cells ex_header_def DEPTH_def yl_entry_text_def)
  note lists = inst[THEN conjunct2, THEN conjunct1, THEN spec[where x = "''x''"],
      THEN spec[where x = "''y''"], THEN mp, OF ex_data_free]
  note rec = inst[THEN conjunct2, THEN conjunct2, THEN spec[where x = 2], THEN mp, OF len(1)]
  note call = rec[THEN conjunct2, THEN conjunct1]
  note at = rec[THEN conjunct2, THEN conjunct2, THEN conjunct1]
  note form = inst[THEN conjunct1, THEN bspec, THEN conjunct1]
  have 1: "yl_list_at (YDict
       [(SKey ''x'',
         YDict
          [(SKey ''y'',
            YList
             [[(SKey ''q'',
                YDict
                 [(SKey ''t1'', YStr ''1''), (SKey ''t2'', YStr ''2'')]),
               (IKey 1, YStr ''Y7 t1''), (IKey 2, YStr ''Y7 t2'')],
              [(SKey ''r'', YDict [(SKey ''t2'', YStr ''1'')]),
               (IKey 1, YStr ''Y10 t2'')]])]),
        (SKey ''All levels'', YStr ''Y10 Y7''),
        (SKey ''y'', YStr ''Y10 Y7'')]) ''x'' ''y''
      = Some [[(SKey ''q'', YDict [(SKey ''t1'', YStr ''1''), (SKey ''t2'', YStr ''2'')]),
               (IKey 1, YStr ''Y7 t1''), (IKey 2, YStr ''Y7 t2'')],
              [(SKey ''r'', YDict [(SKey ''t2'', YStr ''1'')]), (IKey 1, YStr ''Y10 t2'')]]"
    using lists unfolding ex_data_nodes by simp
  have 2: "yl_entry ex_header (ex_row [''x'', ''y'', ''p'', ''q'', ''t2'', ''7'']) ''q'' ''Y7 t2''
        [(SKey ''q'', YDict [(SKey ''t1'', YStr ''1'')]), (IKey 1, YStr ''Y7 t1'')]
      = Inr ([(SKey ''q'', YDict [(SKey ''t1'', YStr ''1''), (SKey ''t2'', YStr ''2'')]),
              (IKey 1, YStr ''Y7 t1''), (IKey 2, YStr ''Y7 t2'')], 2)"
    using call unfolding r2 t by (simp add: ex_data_elems)
  have 3: "[(SKey ''q'', YDict [(SKey ''t1'', YStr ''1''), (SKey ''t2'', YStr ''2'')]),
       (IKey 1, YStr ''Y7 t1''), (IKey 2, YStr ''Y7 t2'')] ! 2 = (IKey 2, YStr ''Y7 t2'')"
    by simp
  have 4: "elem_form [(SKey ''q'', YDict [(SKey ''t1'', YStr ''1''), (SKey ''t2'', YStr ''2'')]),
       (IKey 1, YStr ''Y7 t1''), (IKey 2, YStr ''Y7 t2'')]"
    by (rule form) simp
  show ?thesis by (intro conjI ex_data_yl 1 2 3 4)
qed

text \<open>
  C2 as stated fails on the input with the single row \<^verbatim>\<open>x,y,p,q,t1,7\<close>: the one element
  of the second-level list has two keys, the topic \<^verbatim>\<open>q\<close> and the integer \<open>1\<close>; the entry
  \<^verbatim>\<open>Y7 t1\<close> is stored under \<open>1\<close> in the element and not in the topic's inner dict, which
  was empty (size 0) when the entry was inserted.
\<close>

theorem yl_single_key_counterexample:
  "construct_with_yl ex_one = Inr (YDict [(SKey ''x'', YDict [(SKey ''y'', YList [[(SKey ''q'', YDict [(SKey ''t1'', YStr ''1'')]), (IKey 1, YStr ''Y7 t1'')]])]),
        (SKey ''All levels'', YStr ''Y7''), (SKey ''y'', YStr ''Y7'')])
   \<and> yl_elements (YDict [(SKey ''x'', YDict [(SKey ''y'', YList [[(SKey ''q'', YDict [(SKey ''t1'', YStr ''1'')]), (IKey 1, YStr ''Y7 t1'')]])]),
        (SKey ''All levels'', YStr ''Y7''), (SKey ''y'', YStr ''Y7'')]) = [[(SKey ''q'', YDict [(SKey ''t1'', YStr ''1'')]), (IKey 1, YStr ''Y7 t1'')]]
   \<and> length [(SKey ''q'', YDict [(SKey ''t1'', YStr ''1'')]), (IKey 1, YStr ''Y7 t1'')] = 2
   \<and> map_of [(SKey ''q'', YDict [(SKey ''t1'', YStr ''1'')]), (IKey 1, YStr ''Y7 t1'')] (IKey 1) = Some (YStr ''Y7 t1'')
   \<and> map_of [(SKey ''q'', YDict [(SKey ''t1'', YStr ''1'')]), (IKey 1, YStr ''Y7 t1'')] (SKey ''q'') = Some (YDict [(SKey ''t1'', YStr ''1'')])
   \<and> map_of [(SKey ''t1'', YStr ''1'')] (IKey 1) = None
   \<and> map_of [(SKey ''t1'', YStr ''1'')] (IKey 0) = None"
  using ex_one_yl by simp

section \<open>The Labeler\<close>

lemma less_10_cases: "d < 10 \<Longrightarrow> d \<in> {0, 1, 2, 3, 4, 5, 6, 7, 8, 9::nat}"
  by auto

lemma digit_val_digit_char: "d < 10 \<Longrightarrow> digit_val (digit_char d) = d"
  by (drule less_10_cases) (auto simp: digit_val_def digit_char_def)

lemma digit_char_not_colon: "d < 10 \<Longrightarrow> digit_char d \<noteq> CHR '':''"
  by (drule less_10_cases) (auto simp: digit_char_def)

lemma nat_of_digits_str_nat: "nat_of_digits (str_nat n) = n"
proof (induction n rule: str_nat.induct)
  case (1 n)
  show ?case
  proof (cases "n < 10")
    case True
    then show ?thesis
      by (subst str_nat.simps) (simp add: nat_of_digits_def digit_val_digit_char)
  next
    case False
    then have "nat_of_digits (str_nat (n div 10)) = n div 10" using 1 by simp
    then show ?thesis using False
      by (subst str_nat.simps) (simp add: nat_of_digits_def digit_val_digit_char)
  qed
qed

lemma str_nat_inj: "str_nat n = str_nat m \<Longrightarrow> n = m"
  by (metis nat_of_digits_str_nat)

lemma str_nat_no_colon: "CHR '':'' \<notin> set (str_nat n)"
proof (induction n rule: str_nat.induct)
  case (1 n)
  show ?case
  proof (cases "n < 10")
    case True
    then show ?thesis
      using digit_char_not_colon[of n] by (subst str_nat.simps) auto
  next
    case False
    then have "CHR '':'' \<notin> set (str_nat (n div 10))" using 1 by simp
    then show ?thesis using False digit_char_not_colon[of "n mod 10"]
      by (subst str_nat.simps) auto
  qed
qed

lemma split_at_first:
  "xs @ c # r = ys @ c # r' \<Longrightarrow> c \<notin> set xs \<Longrightarrow> c \<notin> set ys \<Longrightarrow> xs = ys"
proof (induction xs arbitrary: ys)
  case Nil
  then show ?case by (cases ys) auto
next
  case (Cons x xs)
  then show ?case by (cases ys) auto
qed

lemma label_inj: "label d n k = label d n' k' \<Longrightarrow> n = n'"
proof -
  assume "label d n k = label d n' k'"
  then have "(str_nat (d + 1) @ ''.'') @ (str_nat n @ '': '' @ k)
           = (str_nat (d + 1) @ ''.'') @ (str_nat n' @ '': '' @ k')"
    unfolding label_def by (simp only: append_assoc)
  then have "str_nat n @ '': '' @ k = str_nat n' @ '': '' @ k'"
    by (simp only: same_append_eq)
  then have "str_nat n @ CHR '':'' # (CHR '' '' # k) = str_nat n' @ CHR '':'' # (CHR '' '' # k')"
    by (simp only: append_Cons append_Nil)
  from split_at_first[OF this str_nat_no_colon str_nat_no_colon]
  show ?thesis by (rule str_nat_inj)
qed

lemma label_longer: "length (label d n k) > length k"
  by (simp add: label_def)

lemma py_index_nat:
  "py_index ns (int d) = (if d < length ns then Inr (ns ! d) else Inl IndexError)"
  by (simp add: py_index_def py_pos_def)

lemma label_list_run:
  assumes "xs = [] \<or> d < length ns"
  shows "label_list xs track d ns =
         Inr (track @ label_seq d (ns ! d) xs, ns[d := ns ! d + length xs])"
  using assms
proof (induction xs arbitrary: track ns)
  case Nil
  then show ?case by simp
next
  case (Cons x xs)
  then have d: "d < length ns" by simp
  show ?case
    using Cons.IH[of "ns[d := ns ! d + 1]" "track @ [label d (ns ! d) x]"] d
    by (simp add: py_index_nat)
qed

lemma uses_above:
  "e < d \<Longrightarrow> uses_val e d v = 0"
  "e < d \<Longrightarrow> uses_items e d m = 0"
  by (induction e d v and e d m rule: uses_val_uses_items.induct) auto


lemma keys_below_fresh: "keys_below d n track \<Longrightarrow> map_of track (label d n k) = None"
  unfolding keys_below_def map_of_eq_None_iff
  using label_inj by fastforce

lemma keys_below_snoc:
  "keys_below d n track \<Longrightarrow> keys_below d (Suc n) (track @ [(label d n k, v)])"
  unfolding keys_below_def by (fastforce simp: less_Suc_eq)

lemma label_run:
  "fits_items (length ns) d [(key, val)] \<Longrightarrow> (\<forall>e < length ns. ns ! e = c e) \<Longrightarrow>
   keys_below d (c d) track \<Longrightarrow>
   \<exists>ns'. recur_add_label track key val d ns = Inr (track @ relabel_items c d [(key, val)], ns')
        \<and> length ns' = length ns
        \<and> (\<forall>e < length ns. ns' ! e = c e + uses_items e d [(key, val)])"
  "fits_items (length ns) d m \<Longrightarrow> (\<forall>e < length ns. ns ! e = c e) \<Longrightarrow>
   keys_below d (c d) track \<Longrightarrow>
   \<exists>ns'. label_items m track d ns = Inr (track @ relabel_items c d m, ns')
        \<and> length ns' = length ns
        \<and> (\<forall>e < length ns. ns' ! e = c e + uses_items e d m)"
proof (induction track key val d ns and m track d ns arbitrary: c and c
       rule: recur_add_label_label_items.induct)
  case (1 track key val depth node_id)
  then have d: "depth < length node_id" by simp
  have cd: "node_id ! depth = c depth" using 1 d by simp
  have fr: "dict_set (label depth (c depth) key) v track = track @ [(label depth (c depth) key, v)]" for v
    using keys_below_fresh[OF 1(3)] by (rule dict_set_new)
  have ok: "val = [] \<or> Suc depth < length (node_id[depth := c depth + 1])"
    using 1(1) by auto
  show ?case
  proof (cases "val = []")
    case True
    then show ?thesis using d cd fr 1(2) by (auto simp: py_index_nat nth_list_update)
  next
    case False
    then have "Suc depth < length node_id" using 1(1) by simp
    then show ?thesis
      using d cd fr label_list_run[OF ok, of "[]"] 1(2)
      by (auto simp: py_index_nat nth_list_update)
  qed
next
  case (2 track key val depth node_id)
  then have d: "depth < length node_id" by simp
  have cd: "node_id ! depth = c depth" using 2 d by simp
  have fr: "dict_set (label depth (c depth) key) v track = track @ [(label depth (c depth) key, v)]" for v
    using keys_below_fresh[OF 2(4)] by (rule dict_set_new)
  let ?ns1 = "node_id[depth := node_id ! depth + 1]"
  let ?c1 = "\<lambda>e. if e = depth then c depth + 1 else c e"
  have f1: "fits_items (length ?ns1) (depth + 1) val" using 2(2) by simp
  have a1: "\<forall>e < length ?ns1. ?ns1 ! e = ?c1 e" using 2(3) cd by (auto simp: nth_list_update)
  have k1: "keys_below (depth + 1) (?c1 (depth + 1)) []" by (simp add: keys_below_def)
  have p: "py_index node_id (int depth) = Inr (node_id ! depth)"
    using d by (simp add: py_index_nat)
  from 2(1)[OF p f1 a1 k1]
  obtain ns' where r: "label_items val [] (depth + 1) ?ns1 = Inr ([] @ relabel_items ?c1 (depth + 1) val, ns')"
    and l: "length ns' = length ?ns1"
    and u: "\<forall>e < length ?ns1. ns' ! e = ?c1 e + uses_items e (depth + 1) val"
    by blast
  show ?case
    using d cd fr r l u p by (auto simp: uses_above)
next
  case (3 track depth node_id)
  then show ?case by simp
next
  case (4 key val rest track depth node_id)
  have f1: "fits_items (length node_id) depth [(key, val)]" using 4(3) by simp
  from 4(1)[OF f1 4(4) 4(5)]
  obtain ns1 where r1: "recur_add_label track key val depth node_id
                        = Inr (track @ relabel_items c depth [(key, val)], ns1)"
    and l1: "length ns1 = length node_id"
    and u1: "\<forall>e < length node_id. ns1 ! e = c e + uses_items e depth [(key, val)]"
    by blast
  let ?c1 = "\<lambda>e. c e + (if e = depth then 1 else 0) + uses_val e (Suc depth) val"
  let ?t1 = "track @ relabel_items c depth [(key, val)]"
  have f2: "fits_items (length ns1) depth rest" using 4(3) l1 by simp
  have a2: "\<forall>e < length ns1. ns1 ! e = ?c1 e" using u1 l1 by simp
  have "?c1 depth = Suc (c depth)" by (simp add: uses_above)
  then have k2: "keys_below depth (?c1 depth) ?t1"
    using keys_below_snoc[OF 4(5)] by simp
  from 4(2)[OF r1 refl f2 a2 k2]
  obtain ns' where r2: "label_items rest ?t1 depth ns1 = Inr (?t1 @ relabel_items ?c1 depth rest, ns')"
    and l2: "length ns' = length ns1"
    and u2: "\<forall>e < length ns1. ns' ! e = ?c1 e + uses_items e depth rest"
    by blast
  show ?case using r1 r2 l1 l2 u2 by auto
qed

lemma add_label_run_relabel:
  assumes "fits_items DEPTH 0 m"
  shows "\<exists>ns. add_label_run (Map m) = Inr (relabel_items (\<lambda>d. 1) 0 m, ns)
            \<and> length ns = DEPTH \<and> (\<forall>e < DEPTH. ns ! e = 1 + uses_items e 0 m)"
proof -
  have f: "fits_items (length (replicate DEPTH (1::nat))) 0 m" using assms by simp
  have a: "\<forall>e < length (replicate DEPTH (1::nat)). replicate DEPTH 1 ! e = (\<lambda>d. 1) e" by simp
  have k: "keys_below 0 ((\<lambda>d. 1) 0) []" by (simp add: keys_below_def)
  from label_run(2)[OF f a k] show ?thesis by (simp add: add_label_run_def)
qed

lemma add_label_relabel:
  "fits_items DEPTH 0 m \<Longrightarrow> add_label (Map m) = Inr (Map (relabel_items (\<lambda>d. 1) 0 m))"
  using add_label_run_relabel[of m] by (auto simp: add_label_def)

lemma shaped_fits: "shaped n t \<Longrightarrow> d + n < L \<Longrightarrow> fits_val L d t"
proof (induction n arbitrary: t d)
  case 0
  then show ?case by (cases t) auto
next
  case (Suc n)
  then obtain m where t: "t = Map m" by (cases t) auto
  have "\<forall>c \<in> snd ` set m. shaped n c \<Longrightarrow> fits_items L d m"
  proof (induction m)
    case Nil
    then show ?case by simp
  next
    case (Cons kv m)
    obtain k v where kv: "kv = (k, v)" by (cases kv)
    have "fits_val L (Suc d) v" using Suc.IH[of v "Suc d"] Cons.prems Suc.prems(2) kv by simp
    then show ?case using Cons Suc.prems(2) kv by simp
  qed
  then show ?case using Suc.prems(1) t by simp
qed

lemma length_slice_to: "0 \<le> n \<Longrightarrow> length (slice_to n xs) \<le> nat n"
  by (simp add: slice_to_def)

lemma plain_fits:
  assumes "construct_json data (int DEPTH) = Inr t"
  shows "\<exists>m. t = Map m \<and> fits_items DEPTH 0 m"
proof -
  let ?fs = "slice_to (int DEPTH) (fieldnames data)"
  let ?n = "Suc (length (slice_to (- 2) ?fs))"
  from assms have run: "json_rows ?fs (rows data) (Map []) = Inr t"
    by (simp add: construct_json_def)
  have "shaped ?n t" using json_rows_inv[OF run] by simp
  moreover have "length ?fs \<le> DEPTH" using length_slice_to[of "int DEPTH" "fieldnames data"] by simp
  then have "0 + ?n < DEPTH" by (simp add: slice_to_def DEPTH_def)
  ultimately have "fits_val DEPTH 0 t" by (rule shaped_fits)
  moreover from \<open>shaped ?n t\<close> obtain m where "t = Map m" by (cases t) auto
  ultimately show ?thesis by auto
qed

lemma label_seq_Nil [simp]: "label_seq d n xs = [] \<longleftrightarrow> xs = []"
  by (cases xs) auto

lemma length_label_seq [simp]: "length (label_seq d n xs) = length xs"
  by (induction xs arbitrary: n) auto

lemma fits_relabel:
  "fits_val L d (relabel_val c d v) = fits_val L d v"
  "fits_items L d (relabel_items c d m) = fits_items L d m"
  by (induction c d v and c d m rule: relabel_val_relabel_items.induct) auto

lemma uses_relabel:
  "uses_val e d (relabel_val c d v) = uses_val e d v"
  "uses_items e d (relabel_items c d m) = uses_items e d m"
  by (induction c d v and c d m rule: relabel_val_relabel_items.induct) auto

lemma label_list_counts:
  "label_list xs track d ns = Inr (track', ns') \<Longrightarrow>
   length ns' = length ns \<and> (\<forall>e < length ns. ns' ! e = ns ! e + (if e = d then length xs else 0))
   \<and> (xs = [] \<or> d < length ns)"
proof (induction xs arbitrary: track ns)
  case Nil
  then show ?case by simp
next
  case (Cons x xs)
  from Cons.prems have d: "d < length ns"
    by (auto simp: py_index_nat split: if_splits)
  with Cons.prems have "label_list xs (track @ [label d (ns ! d) x]) d (ns[d := ns ! d + 1]) = Inr (track', ns')"
    by (simp add: py_index_nat)
  from Cons.IH[OF this] d show ?case by (auto simp: nth_list_update)
qed

lemma label_counts:
  "recur_add_label track key val d ns = Inr (track', ns') \<Longrightarrow>
   length ns' = length ns \<and> (\<forall>e < length ns. ns' ! e = ns ! e + uses_items e d [(key, val)])
   \<and> fits_items (length ns) d [(key, val)]"
  "label_items m track d ns = Inr (track', ns') \<Longrightarrow>
   length ns' = length ns \<and> (\<forall>e < length ns. ns' ! e = ns ! e + uses_items e d m)
   \<and> fits_items (length ns) d m"
proof (induction track key val d ns and m track d ns arbitrary: track' ns' and track' ns'
       rule: recur_add_label_label_items.induct)
  case (1 track key val depth node_id)
  from 1 have d: "depth < length node_id"
    by (auto simp: py_index_nat split: if_splits)
  with 1 obtain new where
    "label_list val [] (depth + 1) (node_id[depth := node_id ! depth + 1]) = Inr (new, ns')"
    by (auto simp: py_index_nat dest!: bind_err_Inr)
  from label_list_counts[OF this] d show ?case by (auto simp: nth_list_update)
next
  case (2 track key val depth node_id)
  from 2(2) have d: "depth < length node_id"
    by (auto simp: py_index_nat split: if_splits)
  then have p: "py_index node_id (int depth) = Inr (node_id ! depth)"
    by (simp add: py_index_nat)
  with 2(2) obtain new where
    r: "label_items val [] (depth + 1) (node_id[depth := node_id ! depth + 1]) = Inr (new, ns')"
    by (auto dest!: bind_err_Inr)
  from 2(1)[OF p r] d show ?case by (auto simp: nth_list_update uses_above)
next
  case (3 track depth node_id)
  then show ?case by simp
next
  case (4 key val rest track depth node_id)
  from 4(3) obtain t1 ns1 where
    r1: "recur_add_label track key val depth node_id = Inr (t1, ns1)"
    and r2: "label_items rest t1 depth ns1 = Inr (track', ns')"
    by (auto dest!: bind_err_Inr)
  from 4(1)[OF r1] 4(2)[OF r1 refl r2] show ?case by auto
qed

lemma add_label_run_counts:
  assumes "add_label_run data = Inr (output, ns)"
  shows "length ns = DEPTH
       \<and> (\<forall>d < DEPTH. ns ! d = 1 + uses_val d 0 data
                       \<and> uses_val d 0 (Map output) = uses_val d 0 data)"
proof -
  from assms obtain m where data: "data = Map m"
    by (cases data) (auto simp: add_label_run_def)
  with assms have run: "label_items m [] 0 (replicate DEPTH 1) = Inr (output, ns)"
    by (simp add: add_label_run_def)
  from label_counts(2)[OF run] have f: "fits_items DEPTH 0 m" by simp
  from add_label_run_relabel[OF f] assms data
  have out: "output = relabel_items (\<lambda>d. 1) 0 m"
    and len: "length ns = DEPTH" and cnt: "\<forall>e < DEPTH. ns ! e = 1 + uses_items e 0 m"
    by auto
  show ?thesis using len cnt data by (simp add: out uses_relabel)
qed

lemma ex_wide_plain:
  "construct_json ex_wide (int DEPTH) =
     Inr (Map [(''x'', Map [(''y'', Map [(''p'', Arr [''q''])]), (''z'', Map [(''p'', Arr [''q''])])])])"
  by (simp add: construct_json_def ex_wide_def ex_header_def ex_row_def slice_to_def
      py_index_def py_pos_def row_get_def DEPTH_def)

lemma ex_wide_label:
  "add_label (Map [(''x'', Map [(''y'', Map [(''p'', Arr [''q''])]), (''z'', Map [(''p'', Arr [''q''])])])])
   = Inr (Map [(''1.1: x'', Map [(''2.1: y'', Map [(''3.1: p'', Arr [''4.1: q''])]),
                                 (''2.2: z'', Map [(''3.2: p'', Arr [''4.2: q''])])])])"
  by (simp add: add_label_def add_label_run_def DEPTH_def py_index_def py_pos_def label_def
      str_nat.simps digit_char_def eval_nat_numeral)

lemma ex_wide_run:
  "add_label_run (Map [(''x'', Map [(''y'', Map [(''p'', Arr [''q''])]), (''z'', Map [(''p'', Arr [''q''])])])])
   = Inr ([(''1.1: x'', Map [(''2.1: y'', Map [(''3.1: p'', Arr [''4.1: q''])]),
                                 (''2.2: z'', Map [(''3.2: p'', Arr [''4.2: q''])])])], [2, 3, 3, 3])"
  by (simp add: add_label_run_def DEPTH_def py_index_def py_pos_def label_def
      str_nat.simps digit_char_def eval_nat_numeral)

lemma ex_recur:
  "recur_add_label [] ''p'' (Arr [''q'', ''r'']) 2 [2, 2, 1, 1]
   = Inr ([(''3.1: p'', Arr [''4.1: q'', ''4.2: r''])], [2, 2, 2, 3])"
  by (simp add: py_index_def py_pos_def label_def str_nat.simps digit_char_def eval_nat_numeral)

lemma ex_list:
  "label_list [''q'', ''r''] [] 3 [2, 2, 2, 1] = Inr ([''4.1: q'', ''4.2: r''], [2, 2, 2, 3])"
  by (simp add: py_index_def py_pos_def label_def str_nat.simps digit_char_def eval_nat_numeral)

text \<open>
  C3.  On every tree that \<^verbatim>\<open>construct_json\<close> returns for the depth \<^verbatim>\<open>DEPTH\<close> (a dict at the
  root), \<^verbatim>\<open>add_label\<close> returns the tree of the same shape in which every dict key and every
  element of a terminal list \<open>x\<close> at depth \<open>d\<close> has become \<open>"<d+1>.<serial>: x"\<close>; the
  serials of one depth start at 1 and run through all keys (or elements) of that depth in
  the order of the depth-first walk along the insertion order of the dicts, whatever
  their parents are.
\<close>

theorem add_label_numbers_per_depth:
  assumes "construct_json data (int DEPTH) = Inr t"
  shows "\<exists>m. t = Map m \<and> add_label t = Inr (Map (relabel_items (\<lambda>d. 1) 0 m))"
  using plain_fits[OF assms] add_label_relabel by blast

theorem add_label_numbers_per_depth_witness:
  "construct_json ex_wide (int DEPTH) = Inr (Map [(''x'', Map [(''y'', Map [(''p'', Arr [''q''])]), (''z'', Map [(''p'', Arr [''q''])])])])
   \<and> (\<exists>m. (Map [(''x'', Map [(''y'', Map [(''p'', Arr [''q''])]), (''z'', Map [(''p'', Arr [''q''])])])]) = Map m
          \<and> add_label (Map [(''x'', Map [(''y'', Map [(''p'', Arr [''q''])]), (''z'', Map [(''p'', Arr [''q''])])])])
              = Inr (Map (relabel_items (\<lambda>d. 1) 0 m)))
   \<and> add_label (Map [(''x'', Map [(''y'', Map [(''p'', Arr [''q''])]), (''z'', Map [(''p'', Arr [''q''])])])])
       = Inr (Map [(''1.1: x'', Map [(''2.1: y'', Map [(''3.1: p'', Arr [''4.1: q''])]),
                        (''2.2: z'', Map [(''3.2: p'', Arr [''4.2: q''])])])])"
  using add_label_numbers_per_depth[OF ex_wide_plain] ex_wide_plain ex_wide_label by blast

text \<open>
  C4.  Every call of \<^verbatim>\<open>recur_add_label\<close>, and every run of its loop over a list, leaves
  the list \<^verbatim>\<open>node_id\<close> with its length and with no counter smaller than before; and when
  \<^verbatim>\<open>add_label\<close> is done, the counter of each depth is 1 plus the number of labels made at
  that depth, which is the number of keys and list elements of the input at that depth
  and of the output as well.
\<close>

theorem counters_never_decrease:
  "(recur_add_label track key val depth node_id = Inr (track', node_id') \<longrightarrow>
      length node_id' = length node_id \<and> (\<forall>d < length node_id. node_id ! d \<le> node_id' ! d))
   \<and> (label_list nodes lst depth node_id = Inr (lst', node_id'') \<longrightarrow>
      length node_id'' = length node_id \<and> (\<forall>d < length node_id. node_id ! d \<le> node_id'' ! d))
   \<and> (add_label_run data = Inr (output, node_id_final) \<longrightarrow>
      length node_id_final = DEPTH
      \<and> (\<forall>d < DEPTH. node_id_final ! d = 1 + uses_val d 0 data
                      \<and> uses_val d 0 (Map output) = uses_val d 0 data))"
  using label_counts(1)[of track key val depth node_id track' node_id']
    label_list_counts[of nodes lst depth node_id lst' node_id'']
    add_label_run_counts[of data "output" node_id_final]
  by auto

theorem counters_never_decrease_witness:
  "recur_add_label [] ''p'' (Arr [''q'', ''r'']) 2 [2, 2, 1, 1]
     = Inr ([(''3.1: p'', Arr [''4.1: q'', ''4.2: r''])], [2, 2, 2, 3])
   \<and> length [2, 2, 2, 3::nat] = length [2, 2, 1, 1::nat]
   \<and> [2, 2, 1, 1::nat] ! 3 \<le> [2, 2, 2, 3::nat] ! 3
   \<and> label_list [''q'', ''r''] [] 3 [2, 2, 2, 1] = Inr ([''4.1: q'', ''4.2: r''], [2, 2, 2, 3])
   \<and> [2, 2, 2, 1::nat] ! 3 \<le> [2, 2, 2, 3::nat] ! 3
   \<and> add_label_run (Map [(''x'', Map [(''y'', Map [(''p'', Arr [''q''])]), (''z'', Map [(''p'', Arr [''q''])])])])
       = Inr ([(''1.1: x'', Map [(''2.1: y'', Map [(''3.1: p'', Arr [''4.1: q''])]),
                        (''2.2: z'', Map [(''3.2: p'', Arr [''4.2: q''])])])], [2, 3, 3, 3])
   \<and> length [2, 3, 3, 3::nat] = DEPTH
   \<and> [2, 3, 3, 3::nat] ! 1
       = 1 + uses_val 1 0 (Map [(''x'', Map [(''y'', Map [(''p'', Arr [''q''])]), (''z'', Map [(''p'', Arr [''q''])])])])"
proof -
  note inst = counters_never_decrease[of "[]" "''p''" "Arr [''q'', ''r'']" 2 "[2, 2, 1, 1]"
      "[(''3.1: p'', Arr [''4.1: q'', ''4.2: r''])]" "[2, 2, 2, 3]"
      "[''q'', ''r'']" "[]" "[''4.1: q'', ''4.2: r'']" "[2, 2, 2, 3]"
      "(Map [(''x'', Map [(''y'', Map [(''p'', Arr [''q''])]), (''z'', Map [(''p'', Arr [''q''])])])])"
      "[(''1.1: x'', Map [(''2.1: y'', Map [(''3.1: p'', Arr [''4.1: q''])]),
                        (''2.2: z'', Map [(''3.2: p'', Arr [''4.2: q''])])])]" "[2, 3, 3, 3]"]
  from inst ex_wide_run have l: "length [2, 3, 3, 3::nat] = DEPTH" by blast
  have a: "length [2, 2, 2, 3::nat] = length [2, 2, 1, 1::nat]" by simp
  have c1: "[2, 2, 1, 1::nat] ! 3 \<le> [2, 2, 2, 3::nat] ! 3" by simp
  have c2: "[2, 2, 2, 1::nat] ! 3 \<le> [2, 2, 2, 3::nat] ! 3" by simp
  have u: "[2, 3, 3, 3::nat] ! 1
       = 1 + uses_val 1 0 (Map [(''x'', Map [(''y'', Map [(''p'', Arr [''q''])]), (''z'', Map [(''p'', Arr [''q''])])])])"
    by simp
  show ?thesis by (intro conjI ex_recur ex_list ex_wide_run l a c1 c2 u)
qed

text \<open>
  C8.  Labelling twice differs from labelling once: for every non-empty tree that
  \<^verbatim>\<open>construct_json\<close> returns for the depth \<^verbatim>\<open>DEPTH\<close>, \<^verbatim>\<open>add_label\<close> succeeds on the tree and
  on its own result, and the two results differ.
\<close>

theorem add_label_not_idempotent:
  assumes "construct_json data (int DEPTH) = Inr t" "t \<noteq> Map []"
  shows "\<exists>u u'. add_label t = Inr u \<and> add_label u = Inr u' \<and> u' \<noteq> u"
proof -
  from plain_fits[OF assms(1)] obtain m where t: "t = Map m" and f: "fits_items DEPTH 0 m"
    by blast
  let ?c = "\<lambda>d::nat. 1::nat"
  let ?m1 = "relabel_items ?c 0 m"
  let ?m2 = "relabel_items ?c 0 ?m1"
  have 1: "add_label t = Inr (Map ?m1)" using add_label_relabel[OF f] t by simp
  have "fits_items DEPTH 0 ?m1" using f by (simp add: fits_relabel)
  then have 2: "add_label (Map ?m1) = Inr (Map ?m2)" by (rule add_label_relabel)
  from assms(2) t obtain k v rest where m: "m = (k, v) # rest" by (cases m) auto
  have "fst (hd ?m1) = label 0 1 k" "fst (hd ?m2) = label 0 1 (label 0 1 k)"
    by (simp_all add: m)
  moreover have "label 0 1 (label 0 1 k) \<noteq> label 0 1 k"
    using label_longer[of "label 0 1 k" 0 1] by auto
  ultimately have "?m2 \<noteq> ?m1" by metis
  with 1 2 show ?thesis by blast
qed

theorem add_label_not_idempotent_witness:
  "construct_json ex_wide (int DEPTH) = Inr (Map [(''x'', Map [(''y'', Map [(''p'', Arr [''q''])]), (''z'', Map [(''p'', Arr [''q''])])])])
   \<and> (Map [(''x'', Map [(''y'', Map [(''p'', Arr [''q''])]), (''z'', Map [(''p'', Arr [''q''])])])]) \<noteq> Map []
   \<and> (\<exists>u u'. add_label (Map [(''x'', Map [(''y'', Map [(''p'', Arr [''q''])]), (''z'', Map [(''p'', Arr [''q''])])])]) = Inr u
          \<and> add_label u = Inr u' \<and> u' \<noteq> u)"
proof -
  have h: "(Map [(''x'', Map [(''y'', Map [(''p'', Arr [''q''])]), (''z'', Map [(''p'', Arr [''q''])])])]) \<noteq> Map []"
    by simp
  from add_label_not_idempotent[OF ex_wide_plain h] ex_wide_plain h show ?thesis by blast
qed

section \<open>The Labeler and its input\<close>

lemma new_closed_update:
  assumes "new_closed n0 h" "refs x = {}"
  shows "new_closed n0 (h[a := x])"
  unfolding new_closed_def
proof (intro allI impI)
  fix b
  assume b: "n0 \<le> b \<and> b < length (h[a := x])"
  then have "refs (h ! b) \<subseteq> {n0..<length h}"
    using assms(1) unfolding new_closed_def by simp
  then show "refs (h[a := x] ! b) \<subseteq> {n0..<length (h[a := x])}"
    using b assms(2) by (cases "a = b") simp_all
qed

lemma h_label_list_frame:
  assumes "h_label_list xs track d ns h = (h', r)" "n0 \<le> track"
  shows "length h' = length h \<and> take n0 h' = take n0 h \<and> r \<noteq> Inl None
       \<and> (new_closed n0 h \<longrightarrow> new_closed n0 h')"
  using assms
proof (induction xs arbitrary: ns h)
  case Nil
  then show ?case by auto
next
  case (Cons x xs)
  show ?case
  proof (cases "py_index ns (int d)")
    case (Inl e)
    with Cons.prems show ?thesis by auto
  next
    case (Inr n)
    show ?thesis
    proof (cases "h ! track")
      case (ODict m)
      with Cons.prems Inr show ?thesis by auto
    next
      case (OList ys)
      let ?h1 = "h[track := OList (ys @ [label d n x])]"
      from Cons.prems Inr OList
      have "h_label_list xs track d (ns[d := n + 1]) ?h1 = (h', r)" by simp
      from Cons.IH[OF this Cons.prems(2)]
      have IH: "length h' = length ?h1" "take n0 h' = take n0 ?h1" "r \<noteq> Inl None"
        "new_closed n0 ?h1 \<longrightarrow> new_closed n0 h'" by auto
      have "new_closed n0 h \<Longrightarrow> new_closed n0 ?h1"
        by (rule new_closed_update) simp_all
      then show ?thesis using IH Cons.prems(2) by simp
    qed
  qed
qed

lemma new_closed_alloc:
  assumes "new_closed n0 h" "n0 \<le> track" "track < length h" "h ! track = ODict m" "n0 \<le> length h"
    "refs new = {}"
  shows "new_closed n0 ((h @ [new])[track := ODict (dict_set k (length h) m)])"
proof -
  have r: "refs (ODict (dict_set k (length h) m)) \<subseteq> insert (length h) (refs (ODict m))"
    using set_dict_set[of k "length h" m] by auto
  have m: "refs (ODict m) \<subseteq> {n0..<length h}"
    using assms(1-4) unfolding new_closed_def by metis
  have rm: "refs (ODict (dict_set k (length h) m)) \<subseteq> {n0..<Suc (length h)}"
  proof
    fix b assume "b \<in> refs (ODict (dict_set k (length h) m))"
    then have "b = length h \<or> b \<in> refs (ODict m)" using r by blast
    then show "b \<in> {n0..<Suc (length h)}" using m assms(5) by auto
  qed
  show ?thesis
    unfolding new_closed_def
  proof (intro allI impI)
    fix a
    assume a: "n0 \<le> a \<and> a < length ((h @ [new])[track := ODict (dict_set k (length h) m)])"
    show "refs ((h @ [new])[track := ODict (dict_set k (length h) m)] ! a)
          \<subseteq> {n0..<length ((h @ [new])[track := ODict (dict_set k (length h) m)])}"
    proof (cases "a = track")
      case True
      then show ?thesis using rm assms(3) by (simp add: nth_list_update)
    next
      case False
      show ?thesis
      proof (cases "a = length h")
        case True
        then show ?thesis using False assms(6) by (simp add: nth_list_update)
      next
        case F2: False
        then have "a < length h" using a by simp
        then have "refs (h ! a) \<subseteq> {n0..<length h}"
          using assms(1) a unfolding new_closed_def by blast
        then show ?thesis using False \<open>a < length h\<close>
          by (auto simp: nth_list_update nth_append)
      qed
    qed
  qed
qed

lemma h_recur_frame:
  "h_recur_add_label fuel track key val d ns h = (h', r) \<Longrightarrow> n0 \<le> track \<Longrightarrow> track < length h \<Longrightarrow>
   length h \<le> length h' \<and> take n0 h' = take n0 h
   \<and> (new_closed n0 h \<longrightarrow> r \<noteq> Inl (Some TypeError) \<longrightarrow> new_closed n0 h')"
  "h_label_items fuel items track d ns h = (h', r) \<Longrightarrow> n0 \<le> track \<Longrightarrow> track < length h \<Longrightarrow>
   length h \<le> length h' \<and> take n0 h' = take n0 h
   \<and> (new_closed n0 h \<longrightarrow> r \<noteq> Inl (Some TypeError) \<longrightarrow> new_closed n0 h')"
proof (induction fuel track key val d ns h and fuel items track d ns h arbitrary: h' r and h' r
       rule: h_recur_add_label_h_label_items.induct)
  case (1 track key val depth node_id h)
  then show ?case by auto
next
  case (2 fuel track key val depth node_id h)
  show ?case
  proof (cases "py_index node_id (int depth)")
    case (Inl e)
    with 2(2) show ?thesis by auto
  next
    case (Inr n)
    show ?thesis
    proof (cases "h ! track")
      case (OList ys)
      with 2(2) Inr show ?thesis using 2(3,4) by auto
    next
      case (ODict m)
      let ?k = "label depth n key"
      show ?thesis
      proof (cases "h ! val")
        case (OList xs)
        let ?h1 = "(h @ [OList []])[track := ODict (dict_set ?k (length h) m)]"
        from 2(2) Inr ODict OList
        have "h_label_list xs (length h) (depth + 1) (node_id[depth := n + 1]) ?h1 = (h', r)"
          by simp
        from h_label_list_frame[OF this, of n0] 2(3,4)
        have L: "length h' = length ?h1" "take n0 h' = take n0 ?h1"
          "new_closed n0 ?h1 \<longrightarrow> new_closed n0 h'" by auto
        have "new_closed n0 h \<Longrightarrow> new_closed n0 ?h1"
          using new_closed_alloc[of n0 h track m "OList []" ?k] 2(3,4) ODict by simp
        then show ?thesis using L 2(3,4) by simp
      next
        case items: (ODict items)
        let ?h1 = "(h @ [ODict []])[track := ODict (dict_set ?k (length h) m)]"
        from 2(2) Inr ODict items
        have run: "h_label_items fuel items (length h) (depth + 1) (node_id[depth := n + 1]) ?h1 = (h', r)"
          by simp
        have "n0 \<le> length h" "length h < length ?h1" using 2(3,4) by simp_all
        from 2(1)[OF Inr ODict items run this]
        have L: "length ?h1 \<le> length h'" "take n0 h' = take n0 ?h1"
          "new_closed n0 ?h1 \<longrightarrow> r \<noteq> Inl (Some TypeError) \<longrightarrow> new_closed n0 h'" by auto
        have "new_closed n0 h \<Longrightarrow> new_closed n0 ?h1"
          using new_closed_alloc[of n0 h track m "ODict []" ?k] 2(3,4) ODict by simp
        then show ?thesis using L 2(3,4) by auto
      qed
    qed
  qed
next
  case (3 fuel track depth node_id h)
  then show ?case by auto
next
  case (4 fuel key val rest track depth node_id h)
  obtain h1 r1 where r1: "h_recur_add_label fuel track key val depth node_id h = (h1, r1)"
    by (cases "h_recur_add_label fuel track key val depth node_id h")
  from 4(1)[OF r1 4(4,5)]
  have A: "length h \<le> length h1" "take n0 h1 = take n0 h"
    "new_closed n0 h \<longrightarrow> r1 \<noteq> Inl (Some TypeError) \<longrightarrow> new_closed n0 h1" by auto
  show ?case
  proof (cases r1)
    case (Inl e)
    with 4(3) r1 have "h' = h1" "r = Inl e" by auto
    with A Inl show ?thesis by auto
  next
    case (Inr ns1)
    with 4(3) r1 have run: "h_label_items fuel rest track depth ns1 h1 = (h', r)" by simp
    have "track < length h1" using A(1) 4(5) by simp
    from 4(2)[OF r1[symmetric] Inr run 4(4) this] A Inr
    show ?thesis by auto
  qed
qed


lemma h_label_list_length:
  "h_label_list xs track d ns h = (h', Inr ns') \<Longrightarrow> length ns' = length ns"
proof (induction xs arbitrary: ns h)
  case Nil
  then show ?case by simp
next
  case (Cons x xs)
  then show ?case
    by (cases "py_index ns (int d)"; cases "h ! track") (auto split: if_splits)
qed

lemma h_recur_fuel:
  "h_recur_add_label fuel track key val d ns h = (h', r) \<Longrightarrow> d \<le> length ns \<Longrightarrow>
   length ns < fuel + d \<Longrightarrow> r \<noteq> Inl None \<and> (\<forall>ns'. r = Inr ns' \<longrightarrow> length ns' = length ns)"
  "h_label_items fuel items track d ns h = (h', r) \<Longrightarrow> d \<le> length ns \<Longrightarrow>
   length ns < fuel + d \<Longrightarrow> r \<noteq> Inl None \<and> (\<forall>ns'. r = Inr ns' \<longrightarrow> length ns' = length ns)"
proof (induction fuel track key val d ns h and fuel items track d ns h arbitrary: h' r and h' r
       rule: h_recur_add_label_h_label_items.induct)
  case (1 track key val depth node_id h)
  then show ?case by simp
next
  case (2 fuel track key val depth node_id h)
  show ?case
  proof (cases "py_index node_id (int depth)")
    case (Inl e)
    with 2(2) show ?thesis by auto
  next
    case (Inr n)
    then have d: "depth < length node_id" by (simp add: py_index_nat split: if_splits)
    show ?thesis
    proof (cases "h ! track")
      case (OList ys)
      with 2(2) Inr show ?thesis by auto
    next
      case (ODict m)
      let ?k = "label depth n key"
      show ?thesis
      proof (cases "h ! val")
        case (OList xs)
        let ?h1 = "(h @ [OList []])[track := ODict (dict_set ?k (length h) m)]"
        from 2(2) Inr ODict OList
        have run: "h_label_list xs (length h) (depth + 1) (node_id[depth := n + 1]) ?h1 = (h', r)"
          by simp
        from h_label_list_frame[OF run, of 0] h_label_list_length[of xs "length h" "depth + 1" _ ?h1 h']
          run
        show ?thesis by auto
      next
        case items: (ODict items)
        let ?h1 = "(h @ [ODict []])[track := ODict (dict_set ?k (length h) m)]"
        from 2(2) Inr ODict items
        have run: "h_label_items fuel items (length h) (depth + 1) (node_id[depth := n + 1]) ?h1 = (h', r)"
          by simp
        have "depth + 1 \<le> length (node_id[depth := n + 1])"
          "length (node_id[depth := n + 1]) < fuel + (depth + 1)"
          using d 2(4) by simp_all
        from 2(1)[OF Inr ODict items run this] show ?thesis by simp
      qed
    qed
  qed
next
  case (3 fuel track depth node_id h)
  then show ?case by auto
next
  case (4 fuel key val rest track depth node_id h)
  obtain h1 r1 where r1: "h_recur_add_label fuel track key val depth node_id h = (h1, r1)"
    by (cases "h_recur_add_label fuel track key val depth node_id h")
  from 4(1)[OF r1 4(4,5)]
  have A: "r1 \<noteq> Inl None" "\<forall>ns'. r1 = Inr ns' \<longrightarrow> length ns' = length node_id" by auto
  show ?case
  proof (cases r1)
    case (Inl e)
    with 4(3) r1 have "r = Inl e" by auto
    with A Inl show ?thesis by auto
  next
    case (Inr ns1)
    with 4(3) r1 have run: "h_label_items fuel rest track depth ns1 h1 = (h', r)" by simp
    have l: "length ns1 = length node_id" using A Inr by simp
    from 4(2)[OF r1[symmetric] Inr run] 4(4,5) l
    show ?thesis by auto
  qed
qed

lemma take_prefix:
  assumes "take (length h) h' = h"
  shows "length h \<le> length h'" and "a < length h \<Longrightarrow> h' ! a = h ! a"
proof -
  from arg_cong[OF assms, of length] show "length h \<le> length h'"
    unfolding length_take by linarith
  show "a < length h \<Longrightarrow> h' ! a = h ! a"
    using assms by (metis nth_take)
qed

lemma reify_stable:
  "reify n h a = Some t \<Longrightarrow> take (length h) h' = h \<Longrightarrow> reify n h' a = Some t"
  "reify_items n h items = Some ts \<Longrightarrow> take (length h) h' = h \<Longrightarrow> reify_items n h' items = Some ts"
proof (induction n h a and n h items arbitrary: t and ts rule: reify_reify_items.induct)
  case (1 h a)
  then show ?case by simp
next
  case (2 n h a)
  note len = take_prefix(1)[OF "2.prems"(2)]
  from "2.prems"(1) have a: "a < length h" by (simp split: if_splits)
  then have same: "h' ! a = h ! a" using take_prefix(2)[OF "2.prems"(2)] by simp
  show ?case
  proof (cases "h ! a")
    case (OList xs)
    with "2.prems"(1) a same len show ?thesis by simp
  next
    case (ODict items)
    with "2.prems"(1) a obtain ts where ts: "reify_items n h items = Some ts" "t = Map ts" by auto
    from "2.IH"[OF a ODict ts(1) "2.prems"(2)] ts(2) ODict a same len show ?thesis by simp
  qed
next
  case (3 n h)
  then show ?case by simp
next
  case (4 n h k a rest)
  from "4.prems"(1) obtain t where t: "reify n h a = Some t" by (auto split: option.splits)
  with "4.prems"(1) obtain ts' where ts': "reify_items n h rest = Some ts'" "ts = (k, t) # ts'" by auto
  from "4.IH"(1)[OF t "4.prems"(2)] "4.IH"(2)[OF t ts'(1) "4.prems"(2)] ts'(2) show ?case by simp
qed

lemma ex_heap_label:
  "h_add_label 0 ex_heap =
     (ex_heap @ [ODict [(''1.1: x'', 7)], ODict [(''2.1: y'', 8), (''2.2: z'', 10)],
        ODict [(''3.1: p'', 9)], OList [''4.1: q''], ODict [(''3.2: p'', 11)], OList [''4.2: q'']],
      Inr 6)"
  by (simp add: h_add_label_def ex_heap_def DEPTH_def py_index_def py_pos_def label_def
      str_nat.simps digit_char_def eval_nat_numeral)

lemma ex_heap_reify:
  "reify 4 ex_heap 0 = Some (Map [(''x'', Map [(''y'', Map [(''p'', Arr [''q''])]), (''z'', Map [(''p'', Arr [''q''])])])])"
  by (simp add: ex_heap_def eval_nat_numeral)

text \<open>
  On this store the result read at the new address is the tree that the state-passing
  \<^verbatim>\<open>add_label\<close> of the previous sections returns for the input tree.
\<close>

lemma ex_heap_result:
  "reify 4 (ex_heap @ [ODict [(''1.1: x'', 7)], ODict [(''2.1: y'', 8), (''2.2: z'', 10)],
        ODict [(''3.1: p'', 9)], OList [''4.1: q''], ODict [(''3.2: p'', 11)], OList [''4.2: q'']]) 6
   = Some (Map [(''1.1: x'', Map [(''2.1: y'', Map [(''3.1: p'', Arr [''4.1: q''])]),
                        (''2.2: z'', Map [(''3.2: p'', Arr [''4.2: q''])])])])"
  by (simp add: ex_heap_def eval_nat_numeral)

text \<open>
  C9.  \<^verbatim>\<open>add_label\<close> writes to no object that existed before the call: whatever the store
  and the address \<^verbatim>\<open>data\<close>, and whether the call returns or raises, every object of the
  store is afterwards what it was before (the objects of the input tree among them, so
  the tree read at \<^verbatim>\<open>data\<close> is the same tree); the call does not run out of its bound; and
  when it returns, the result is a new object, and the new objects hold references to
  new objects only.
\<close>

theorem add_label_leaves_input:
  assumes "h_add_label data h = (h', r)"
  shows "take (length h) h' = h \<and> r \<noteq> Inl None
       \<and> (\<forall>n t. reify n h data = Some t \<longrightarrow> reify n h' data = Some t)
       \<and> (\<forall>out. r = Inr out \<longrightarrow>
            out = length h \<and> out < length h'
            \<and> (\<forall>a. length h \<le> a \<and> a < length h' \<longrightarrow> refs (h' ! a) \<subseteq> {length h..<length h'}))"
proof -
  have core: "take (length h) h' = h \<and> r \<noteq> Inl None
       \<and> (\<forall>out. r = Inr out \<longrightarrow>
            out = length h \<and> out < length h' \<and> new_closed (length h) h')"
  proof (cases "h ! data")
    case (OList xs)
    with assms show ?thesis by (auto simp: h_add_label_def)
  next
    case (ODict items)
    let ?h1 = "h @ [ODict []]"
    obtain h2 r2 where run:
      "h_label_items (DEPTH + 1) items (length h) 0 (replicate DEPTH 1) ?h1 = (h2, r2)"
      by (cases "h_label_items (DEPTH + 1) items (length h) 0 (replicate DEPTH 1) ?h1")
    from assms ODict run have h': "h' = h2"
      and r: "r = (case r2 of Inl e \<Rightarrow> Inl e | Inr ns \<Rightarrow> Inr (length h))"
      by (auto simp: h_add_label_def split: sum.splits)
    have c0: "new_closed (length h) ?h1"
      by (auto simp: new_closed_def nth_append less_Suc_eq)
    from h_recur_frame(2)[OF run, of "length h"]
    have F: "length ?h1 \<le> length h2" "take (length h) h2 = take (length h) ?h1"
      "r2 \<noteq> Inl (Some TypeError) \<longrightarrow> new_closed (length h) h2"
      using c0 by auto
    from h_recur_fuel(2)[OF run] have N: "r2 \<noteq> Inl None" by simp
    show ?thesis using F N h' r by (auto split: sum.splits)
  qed
  then have fr: "take (length h) h' = h" by simp
  show ?thesis using core reify_stable(1)[OF _ fr] unfolding new_closed_def by blast
qed

theorem add_label_leaves_input_witness:
  "h_add_label 0 ex_heap = (ex_heap @ [ODict [(''1.1: x'', 7)], ODict [(''2.1: y'', 8), (''2.2: z'', 10)],
        ODict [(''3.1: p'', 9)], OList [''4.1: q''], ODict [(''3.2: p'', 11)], OList [''4.2: q'']], Inr 6)
   \<and> take (length ex_heap) (ex_heap @ [ODict [(''1.1: x'', 7)], ODict [(''2.1: y'', 8), (''2.2: z'', 10)],
        ODict [(''3.1: p'', 9)], OList [''4.1: q''], ODict [(''3.2: p'', 11)], OList [''4.2: q'']]) = ex_heap
   \<and> reify 4 ex_heap 0 = Some (Map [(''x'', Map [(''y'', Map [(''p'', Arr [''q''])]), (''z'', Map [(''p'', Arr [''q''])])])])
   \<and> reify 4 (ex_heap @ [ODict [(''1.1: x'', 7)], ODict [(''2.1: y'', 8), (''2.2: z'', 10)],
        ODict [(''3.1: p'', 9)], OList [''4.1: q''], ODict [(''3.2: p'', 11)], OList [''4.2: q'']]) 0 = Some (Map [(''x'', Map [(''y'', Map [(''p'', Arr [''q''])]), (''z'', Map [(''p'', Arr [''q''])])])])
   \<and> 6 = length ex_heap
   \<and> reify 4 (ex_heap @ [ODict [(''1.1: x'', 7)], ODict [(''2.1: y'', 8), (''2.2: z'', 10)],
        ODict [(''3.1: p'', 9)], OList [''4.1: q''], ODict [(''3.2: p'', 11)], OList [''4.2: q'']]) 6
       = Some (Map [(''1.1: x'', Map [(''2.1: y'', Map [(''3.1: p'', Arr [''4.1: q''])]),
                        (''2.2: z'', Map [(''3.2: p'', Arr [''4.2: q''])])])])"
proof -
  note inst = add_label_leaves_input[OF ex_heap_label]
  from inst have a: "take (length ex_heap) (ex_heap @ [ODict [(''1.1: x'', 7)], ODict [(''2.1: y'', 8), (''2.2: z'', 10)],
        ODict [(''3.1: p'', 9)], OList [''4.1: q''], ODict [(''3.2: p'', 11)], OList [''4.2: q'']]) = ex_heap"
    by blast
  from inst ex_heap_reify
  have b: "reify 4 (ex_heap @ [ODict [(''1.1: x'', 7)], ODict [(''2.1: y'', 8), (''2.2: z'', 10)],
        ODict [(''3.1: p'', 9)], OList [''4.1: q''], ODict [(''3.2: p'', 11)], OList [''4.2: q'']]) 0 = Some (Map [(''x'', Map [(''y'', Map [(''p'', Arr [''q''])]), (''z'', Map [(''p'', Arr [''q''])])])])"
    by blast
  from inst have c: "6 = length ex_heap" by blast
  show ?thesis by (intro conjI ex_heap_label ex_heap_reify a b c ex_heap_result)
qed


end
